theory Spec2Isabelle
  imports Main "HOL-Library.Word"
begin

section \<open>Completion queues of the usNIC provider (usdf_cq.c)\<close>

text \<open>
  A shallow embedding of \<^verbatim>\<open>src/prov/usnic/src/usdf_cq.c\<close>. Pointers to application
  contexts and hardware queues are natural numbers, \<^verbatim>\<open>NULL\<close> is \<open>None\<close>. Bit masks
  are sets of named flags (\<^verbatim>\<open>a | b\<close> is a union, \<^verbatim>\<open>m & f\<close> is membership, 0 is
  the empty set). A function returning \<^verbatim>\<open>ssize_t\<close> returns \<open>Inl e\<close> for \<^verbatim>\<open>-e\<close> and
  \<open>Inr n\<close> for a count.
\<close>

subsection \<open>Constants and types of the headers\<close>

datatype fi_flag = FI_MSG | FI_SEND | FI_RECV | FI_MSG_PREFIX

datatype fi_errno =
    FI_SUCCESS | FI_EIO | FI_EAGAIN | FI_ENOMEM | FI_EBUSY | FI_EINVAL | FI_ENOSYS
  | FI_EOPNOTSUPP | FI_ETIMEDOUT | FI_EOTHER | FI_EAVAIL | FI_ECRC | FI_ETRUNC
  | USD_ERROR int

text \<open>
  The number behind an error name, for the places where the code stores one in an
  \<^verbatim>\<open>int\<close> field (rdma/fi\_errno.h is not among the sources; the values are those of
  errno.h and of libfabric's own range from 256 on). \<open>USD_ERROR r\<close> is a non-zero
  return value \<open>r\<close> of usnic\_direct handed up unchanged.
\<close>

fun errno_code :: "fi_errno \<Rightarrow> int" where
  "errno_code FI_SUCCESS = 0"
| "errno_code FI_EIO = 5"
| "errno_code FI_EAGAIN = 11"
| "errno_code FI_ENOMEM = 12"
| "errno_code FI_EBUSY = 16"
| "errno_code FI_EINVAL = 22"
| "errno_code FI_ENOSYS = 38"
| "errno_code FI_EOPNOTSUPP = 95"
| "errno_code FI_ETIMEDOUT = 110"
| "errno_code FI_EOTHER = 256"
| "errno_code FI_EAVAIL = 259"
| "errno_code FI_ECRC = 264"
| "errno_code FI_ETRUNC = 265"
| "errno_code (USD_ERROR r) = - r"

datatype fi_cq_format =
  FI_CQ_FORMAT_UNSPEC | FI_CQ_FORMAT_CONTEXT | FI_CQ_FORMAT_MSG | FI_CQ_FORMAT_DATA
  | FI_CQ_FORMAT_TAGGED

datatype fi_wait_obj = FI_WAIT_NONE | FI_WAIT_UNSPEC | FI_WAIT_SET | FI_WAIT_FD

datatype usd_completion_type =
  USD_COMPTYPE_SEND | USD_COMPTYPE_RECV | USD_COMPTYPE_UNKNOWN int

text \<open>
  \<^verbatim>\<open>enum usd_completion_status\<close>, kept as the integer the code compares with 0
  (usnic\_direct.h is not among the sources; the enumerators count from 0 in the order
  in which \<^verbatim>\<open>usdf_cq_readerr\<close> lists them).
\<close>

definition USD_COMPSTAT_SUCCESS :: int where "USD_COMPSTAT_SUCCESS = 0"
definition USD_COMPSTAT_ERROR_CRC :: int where "USD_COMPSTAT_ERROR_CRC = 1"
definition USD_COMPSTAT_ERROR_TRUNC :: int where "USD_COMPSTAT_ERROR_TRUNC = 2"
definition USD_COMPSTAT_ERROR_TIMEOUT :: int where "USD_COMPSTAT_ERROR_TIMEOUT = 3"
definition USD_COMPSTAT_ERROR_INTERNAL :: int where "USD_COMPSTAT_ERROR_INTERNAL = 4"

record usdf_ep =
  ep_mode :: "fi_flag set"

record usd_qp =
  uq_context :: usdf_ep

record usd_completion =
  uc_context :: nat
  uc_bytes :: "32 word"
  uc_type :: usd_completion_type
  uc_status :: int
  uc_qp :: usd_qp

text \<open>The three output layouts, each extending the one before.\<close>

record fi_cq_entry =
  op_context :: nat

record fi_cq_msg_entry = fi_cq_entry +
  flags :: "fi_flag set"
  len :: "64 word"

record fi_cq_data_entry = fi_cq_msg_entry +
  buf :: nat
  data :: "64 word"

datatype cq_out =
  Out_context fi_cq_entry | Out_msg fi_cq_msg_entry | Out_data fi_cq_data_entry

record fi_cq_err_entry =
  err_op_context :: nat
  err_flags :: "fi_flag set"
  err :: fi_errno
  prov_errno :: int

text \<open>
  Macros and sizes of headers that are not among the sources, taken as parameters:
  \<^verbatim>\<open>USDF_HDR_BUF_ENTRY\<close>, \<^verbatim>\<open>sizeof(struct usd_udp_hdr)\<close> and the three back-off
  settings of the blocking reads.
\<close>

record usdf_consts =
  USDF_HDR_BUF_ENTRY :: "64 word"
  sizeof_usd_udp_hdr :: "64 word"
  SREAD_INIT_SLEEP_TIME_US :: nat
  SREAD_EXP_BASE :: nat
  SREAD_MAX_SLEEP_TIME_US :: nat

subsection \<open>The entry copier\<close>

fun usdf_cqe_to_flags :: "usd_completion \<Rightarrow> fi_flag set" where
  "usdf_cqe_to_flags src =
     (case uc_type src of
        USD_COMPTYPE_SEND \<Rightarrow> {FI_MSG, FI_SEND}
      | USD_COMPTYPE_RECV \<Rightarrow> {FI_MSG, FI_RECV}
      | USD_COMPTYPE_UNKNOWN t \<Rightarrow> {})"

definition usdf_cq_adjust_len :: "usdf_consts \<Rightarrow> usd_completion \<Rightarrow> 64 word \<Rightarrow> 64 word" where
  "usdf_cq_adjust_len K src l =
     (let ep = uq_context (uc_qp src) in
      if uc_type src = USD_COMPTYPE_RECV then
        (if FI_MSG_PREFIX \<in> ep_mode ep
         then l + (USDF_HDR_BUF_ENTRY K - sizeof_usd_udp_hdr K)
         else l - sizeof_usd_udp_hdr K)
      else
        (if FI_MSG_PREFIX \<in> ep_mode ep then l + USDF_HDR_BUF_ENTRY K else l))"

definition usdf_cq_copy_cq_entry ::
  "usdf_consts \<Rightarrow> usd_completion \<Rightarrow> fi_cq_format \<Rightarrow> fi_errno + cq_out" where
  "usdf_cq_copy_cq_entry K src fmt =
     (case fmt of
        FI_CQ_FORMAT_CONTEXT \<Rightarrow> Inr (Out_context \<lparr>op_context = uc_context src\<rparr>)
      | FI_CQ_FORMAT_MSG \<Rightarrow>
          Inr (Out_msg \<lparr>op_context = uc_context src, flags = usdf_cqe_to_flags src,
                        len = usdf_cq_adjust_len K src (ucast (uc_bytes src))\<rparr>)
      | FI_CQ_FORMAT_DATA \<Rightarrow>
          Inr (Out_data \<lparr>op_context = uc_context src, flags = usdf_cqe_to_flags src,
                         len = usdf_cq_adjust_len K src (ucast (uc_bytes src)),
                         buf = 0, data = 0\<rparr>)
      | _ \<Rightarrow> Inl FI_EOPNOTSUPP)"



subsection \<open>The completion queue object\<close>

record fi_cq_attr =
  format :: fi_cq_format
  size_attr :: nat
  wait_obj :: fi_wait_obj

record usdf_cq_soft_entry =
  cse_context :: nat
  cse_flags :: "fi_flag set"
  cse_len :: "64 word"
  cse_buf :: nat
  cse_data :: "64 word"
  cse_prov_errno :: int

datatype soft_cq_op = USDF_SOFT_CQ_READ | USDF_SOFT_CQ_WRITE

datatype progress_rtn = Usdf_progress_hard_cq

text \<open>
  A hardware queue binding (\<^verbatim>\<open>struct usdf_cq_hard\<close>); the back pointer \<^verbatim>\<open>cqh_cq\<close> is
  left out, every function that follows it is given the queue itself.
\<close>

record usdf_cq_hard =
  cqh_ucq :: "nat option"
  cqh_progress :: progress_rtn
  cqh_refcnt :: nat

text \<open>
  The soft member of the union \<^verbatim>\<open>c\<close>. The ring \<^verbatim>\<open>cq_comps\<close> is \<open>None\<close> for \<^verbatim>\<open>NULL\<close>
  and otherwise the array that \<^verbatim>\<open>calloc\<close> returned; \<^verbatim>\<open>cq_end\<close>, \<^verbatim>\<open>cq_head\<close> and
  \<^verbatim>\<open>cq_tail\<close> point into it and are kept as indices from \<^verbatim>\<open>cq_comps\<close>.
\<close>

record usdf_cq_soft =
  cq_comps :: "usdf_cq_soft_entry list option"
  cq_end :: nat
  cq_head :: nat
  cq_tail :: nat
  cq_last_op :: soft_cq_op
  cq_list :: "usdf_cq_hard list"

text \<open>
  The union \<^verbatim>\<open>c\<close> holds the member written last. \<open>soft\<close> of a union that holds the
  hard member is left unspecified, as the bytes found there are.
\<close>

datatype cq_union = Hard (hard_member: "nat option") | Soft (soft: usdf_cq_soft)

text \<open>
  Modelled from the spec: the declaration of \<^verbatim>\<open>struct usdf_cq\<close> (usdf\_cq.h) is not
  among the sources. The spec has the hard-mode and soft-mode fields share storage, and
  \<^verbatim>\<open>usdf_cq_make_soft\<close> saves \<^verbatim>\<open>c.hard.cq_cq\<close> before it writes the soft fields and
  restores it after one failure. So reading \<^verbatim>\<open>c.hard.cq_cq\<close> from a union written
  through \<^verbatim>\<open>c.soft\<close> reads the ring pointer: \<^verbatim>\<open>NULL\<close> when \<^verbatim>\<open>cq_comps\<close> is \<^verbatim>\<open>NULL\<close>,
  and otherwise the ring's address, which is left unspecified.
\<close>

fun hard_cq_cq :: "cq_union \<Rightarrow> nat option" where
  "hard_cq_cq (Hard h) = h"
| "hard_cq_cq (Soft s) = (case cq_comps s of None \<Rightarrow> None | Some xs \<Rightarrow> hard_member (Soft s))"

text \<open>
  What \<^verbatim>\<open>cq->cq_fid.ops\<close> can hold: \<^verbatim>\<open>NULL\<close>, as in a queue fresh from \<^verbatim>\<open>calloc\<close>, or
  the address of one of the six operation tables.
\<close>

datatype fi_ops_cq =
  NULL_ops
  | usdf_cq_context_ops | usdf_cq_context_soft_ops | usdf_cq_msg_ops | usdf_cq_msg_soft_ops
  | usdf_cq_data_ops | usdf_cq_data_soft_ops

record usdf_cq =
  cq_fid_context :: nat
  cq_fid_ops :: fi_ops_cq
  cq_refcnt :: nat
  cq_attr :: fi_cq_attr
  c_union :: cq_union
  cq_comp :: usd_completion

text \<open>Calls of the allocator and of \<^verbatim>\<open>usd_destroy_cq\<close>, in the order made.\<close>

datatype mem_event =
  Calloc_cq | Calloc_comps nat | Malloc_hcq | Free_comps | Free_hcq usdf_cq_hard | Free_cq
  | Destroy_cq nat

subsection \<open>The hardware queue\<close>

text \<open>
  Modelled from the spec: \<^verbatim>\<open>usd_poll_cq\<close> belongs to usnic\_direct and is not among the
  sources; the spec gives it as \<^verbatim>\<open>poll_hw_queue(queue) -> RawCompletion | NoneAvailable\<close>.
  A hardware queue is the list of the answers it will give to the polls to come,
  \<open>None\<close> for \<^verbatim>\<open>-EAGAIN\<close>; once the list is used up every poll answers \<^verbatim>\<open>-EAGAIN\<close>.
\<close>

type_synonym usd_cq = "usd_completion option list"

fun usd_poll_cq :: "usd_cq \<Rightarrow> usd_completion option \<times> usd_cq" where
  "usd_poll_cq [] = (None, [])"
| "usd_poll_cq (r # hw) = (r, hw)"

subsection \<open>Hard mode: error read and reads\<close>

definition usdf_cq_readerr ::
  "usdf_cq \<Rightarrow> fi_cq_err_entry \<Rightarrow> (fi_errno + nat) \<times> usdf_cq \<times> fi_cq_err_entry" where
  "usdf_cq_readerr cq entry =
     (if uc_status (cq_comp cq) = 0 then (Inl FI_EAGAIN, cq, entry)
      else
        let st = uc_status (cq_comp cq);
            e1 = entry\<lparr>err_op_context := uc_context (cq_comp cq), err_flags := {},
                        err := FI_EIO\<rparr>;
            e2 = (if st = USD_COMPSTAT_SUCCESS then e1\<lparr>prov_errno := errno_code FI_SUCCESS\<rparr>
                  else if st = USD_COMPSTAT_ERROR_CRC then e1\<lparr>prov_errno := errno_code FI_ECRC\<rparr>
                  else if st = USD_COMPSTAT_ERROR_TRUNC then e1\<lparr>prov_errno := errno_code FI_ETRUNC\<rparr>
                  else if st = USD_COMPSTAT_ERROR_TIMEOUT
                    then e1\<lparr>prov_errno := errno_code FI_ETIMEDOUT\<rparr>
                  else if st = USD_COMPSTAT_ERROR_INTERNAL
                    then e1\<lparr>prov_errno := errno_code FI_EOTHER\<rparr>
                  else e1)
        in (Inr 1, cq\<lparr>cq_comp := (cq_comp cq)\<lparr>uc_status := 0\<rparr>\<rparr>, e2))"

text \<open>
  The value returned after the loop of a hard read: the number of entries written, or
  \<open>ret\<close> when there is none.
\<close>

definition read_result :: "cq_out list \<Rightarrow> fi_errno + nat \<Rightarrow> fi_errno + nat" where
  "read_result acc ret = (if acc \<noteq> [] then Inr (length acc) else ret)"

text \<open>
  The loop of \<^verbatim>\<open>usdf_cq_read_common\<close>: \<open>acc\<close> holds the entries written so far
  (\<^verbatim>\<open>entry\<close> is \<^verbatim>\<open>buf\<close> plus their size), \<open>ret\<close> the variable of that name, \<open>cmp\<close> is
  \<^verbatim>\<open>cq->cq_comp\<close>. The result is the returned value, \<^verbatim>\<open>cq->cq_comp\<close>, the hardware
  queue and the buffer.
\<close>

fun usdf_cq_read_loop ::
  "usdf_consts \<Rightarrow> fi_cq_format \<Rightarrow> nat \<Rightarrow> cq_out list \<Rightarrow> fi_errno + nat \<Rightarrow> usd_completion
     \<Rightarrow> usd_cq \<Rightarrow> (fi_errno + nat) \<times> usd_completion \<times> usd_cq \<times> cq_out list" where
  "usdf_cq_read_loop K fmt count acc ret cmp [] =
     (if length acc < count then (read_result acc (Inl FI_EAGAIN), cmp, [], acc)
      else (read_result acc ret, cmp, [], acc))"
| "usdf_cq_read_loop K fmt count acc ret cmp (None # hw) =
     (if length acc < count then (read_result acc (Inl FI_EAGAIN), cmp, hw, acc)
      else (read_result acc ret, cmp, None # hw, acc))"
| "usdf_cq_read_loop K fmt count acc ret cmp (Some c # hw) =
     (if length acc < count then
        (if uc_status c \<noteq> 0 then (read_result acc (Inl FI_EAVAIL), c, hw, acc)
         else (case usdf_cq_copy_cq_entry K c fmt of
                 Inl e \<Rightarrow> (Inl e, c, hw, acc)
               | Inr ent \<Rightarrow> usdf_cq_read_loop K fmt count (acc @ [ent]) (Inr 0) c hw))
      else (read_result acc ret, cmp, Some c # hw, acc))"

definition usdf_cq_read_common ::
  "usdf_consts \<Rightarrow> usdf_cq \<Rightarrow> usd_cq \<Rightarrow> nat \<Rightarrow> fi_cq_format
     \<Rightarrow> (fi_errno + nat) \<times> usdf_cq \<times> usd_cq \<times> cq_out list" where
  "usdf_cq_read_common K cq hw count fmt =
     (if uc_status (cq_comp cq) \<noteq> 0 then (Inl FI_EAVAIL, cq, hw, [])
      else if fmt = FI_CQ_FORMAT_CONTEXT \<or> fmt = FI_CQ_FORMAT_MSG \<or> fmt = FI_CQ_FORMAT_DATA
      then (case usdf_cq_read_loop K fmt count [] (Inr 0) (cq_comp cq) hw of
              (r, cmp, hw', out) \<Rightarrow> (r, cq\<lparr>cq_comp := cmp\<rparr>, hw', out))
      else (Inr 0, cq, hw, []))"


subsection \<open>Hard mode: blocking read\<close>

text \<open>
  C arithmetic of the deadline test \<^verbatim>\<open>time_spent_us >= 1000 * timeout_ms\<close>: the product
  is an \<^verbatim>\<open>int\<close> (taken to wrap at 32 bits where C leaves the overflow undefined) and is
  converted to \<^verbatim>\<open>size_t\<close> (64 bits) for the comparison.
\<close>

definition int32_wrap :: "int \<Rightarrow> int" where
  "int32_wrap x = (x + 2 ^ 31) mod 2 ^ 32 - 2 ^ 31"

definition to_size_t :: "int \<Rightarrow> nat" where
  "to_size_t x = nat (x mod 2 ^ 64)"

definition deadline_passed :: "int \<Rightarrow> nat \<Rightarrow> bool" where
  "deadline_passed timeout_ms time_spent_us =
     (timeout_ms \<ge> 0 \<and> time_spent_us \<ge> to_size_t (int32_wrap (1000 * timeout_ms)))"

text \<open>The quantum after a sleep of \<open>q\<close>: multiplied while below the limit, then capped.\<close>

definition next_sleep_time :: "usdf_consts \<Rightarrow> nat \<Rightarrow> nat" where
  "next_sleep_time K q =
     min (if q < SREAD_MAX_SLEEP_TIME_US K then (q * SREAD_EXP_BASE K) mod 2 ^ 64 else q)
         (SREAD_MAX_SLEEP_TIME_US K)"

text \<open>
  The variables of a blocking read: the buffer, \<^verbatim>\<open>cq->cq_comp\<close>, the hardware queue,
  the two timers, and the arguments of the calls of \<^verbatim>\<open>usleep\<close> made so far.
\<close>

record sread_state =
  entries :: "cq_out list"
  sticky :: usd_completion
  hwq :: usd_cq
  sleep_time_us :: nat
  time_spent_us :: nat
  slept :: "nat list"

definition do_sleep :: "usdf_consts \<Rightarrow> 's sread_state_scheme \<Rightarrow> 's sread_state_scheme" where
  "do_sleep K st =
     st\<lparr>slept := slept st @ [sleep_time_us st],
        time_spent_us := (time_spent_us st + sleep_time_us st) mod 2 ^ 64,
        sleep_time_us := next_sleep_time K (sleep_time_us st)\<rparr>"

text \<open>
  The loop of \<^verbatim>\<open>usdf_cq_sread_common\<close>. It need not end (a negative timeout on a
  queue that stays empty), so it runs on fuel, one unit for each poll: \<open>None\<close> as the
  returned value says that the fuel ran out with the call still in its loop.
\<close>

fun usdf_cq_sread_loop ::
  "nat \<Rightarrow> usdf_consts \<Rightarrow> fi_cq_format \<Rightarrow> nat \<Rightarrow> int \<Rightarrow> sread_state
     \<Rightarrow> (fi_errno + nat) option \<times> sread_state" where
  "usdf_cq_sread_loop 0 K fmt count timeout_ms st =
     (if length (entries st) < count then (None, st)
      else (Some (read_result (entries st) (Inl FI_EAGAIN)), st))"
| "usdf_cq_sread_loop (Suc n) K fmt count timeout_ms st =
     (if length (entries st) < count then
        (case usd_poll_cq (hwq st) of
           (None, hw') \<Rightarrow>
             (if entries st \<noteq> [] then (Some (Inr (length (entries st))), st\<lparr>hwq := hw'\<rparr>)
              else if deadline_passed timeout_ms (time_spent_us st)
              then (Some (Inl FI_EAGAIN), st\<lparr>hwq := hw'\<rparr>)
              else usdf_cq_sread_loop n K fmt count timeout_ms (do_sleep K (st\<lparr>hwq := hw'\<rparr>)))
         | (Some c, hw') \<Rightarrow>
             (if uc_status c \<noteq> 0 then
                (if entries st \<noteq> [] then
                   (Some (Inr (length (entries st))), st\<lparr>sticky := c, hwq := hw'\<rparr>)
                 else (Some (Inl FI_EAVAIL), st\<lparr>sticky := c, hwq := hw'\<rparr>))
              else (case usdf_cq_copy_cq_entry K c fmt of
                      Inl e \<Rightarrow> (Some (Inl e), st\<lparr>sticky := c, hwq := hw'\<rparr>)
                    | Inr ent \<Rightarrow>
                        usdf_cq_sread_loop n K fmt count timeout_ms
                          (st\<lparr>sticky := c, hwq := hw', entries := entries st @ [ent]\<rparr>))))
      else (Some (read_result (entries st) (Inl FI_EAGAIN)), st))"

definition usdf_cq_sread_common ::
  "nat \<Rightarrow> usdf_consts \<Rightarrow> usdf_cq \<Rightarrow> usd_cq \<Rightarrow> nat \<Rightarrow> int \<Rightarrow> fi_cq_format
     \<Rightarrow> (fi_errno + nat) option \<times> sread_state" where
  "usdf_cq_sread_common fuel K cq hw count timeout_ms fmt =
     (let st = \<lparr>entries = [], sticky = cq_comp cq, hwq = hw,
                sleep_time_us = SREAD_INIT_SLEEP_TIME_US K, time_spent_us = 0, slept = []\<rparr>
      in if uc_status (cq_comp cq) \<noteq> 0 then (Some (Inl FI_EAVAIL), st)
         else if fmt = FI_CQ_FORMAT_CONTEXT \<or> fmt = FI_CQ_FORMAT_MSG \<or> fmt = FI_CQ_FORMAT_DATA
         then usdf_cq_sread_loop fuel K fmt count timeout_ms st
         else (Some (Inr 0), st))"

subsection \<open>Soft mode: the ring\<close>

text \<open>\<^verbatim>\<open>p++\<close> on a ring pointer, with the wrap from \<^verbatim>\<open>cq_end\<close> to \<^verbatim>\<open>cq_comps\<close>.\<close>

definition ring_next :: "usdf_cq_soft \<Rightarrow> nat \<Rightarrow> nat" where
  "ring_next s p = (if Suc p \<noteq> cq_end s then Suc p else 0)"

text \<open>\<^verbatim>\<open>p->field\<close> on a ring pointer; the ring is there whenever the code follows one.\<close>

definition ring_at :: "usdf_cq_soft \<Rightarrow> nat \<Rightarrow> usdf_cq_soft_entry" where
  "ring_at s p = the (cq_comps s) ! p"

definition ring_store :: "usdf_cq_soft \<Rightarrow> nat \<Rightarrow> usdf_cq_soft_entry \<Rightarrow> usdf_cq_soft" where
  "ring_store s p e = s\<lparr>cq_comps := map_option (\<lambda>xs. xs[p := e]) (cq_comps s)\<rparr>"

definition soft_full :: "usdf_cq_soft \<Rightarrow> bool" where
  "soft_full s = (cq_head s = cq_tail s \<and> cq_last_op s = USDF_SOFT_CQ_WRITE)"

text \<open>
  \<^verbatim>\<open>usdf_cq_post_soft\<close>, on the soft member of the queue that \<^verbatim>\<open>hcq->cqh_cq\<close> points to.
\<close>

definition usdf_cq_post_soft :: "usdf_cq_soft \<Rightarrow> nat \<Rightarrow> 64 word \<Rightarrow> int \<Rightarrow> usdf_cq_soft" where
  "usdf_cq_post_soft s context l perrno =
     (let entry = cq_head s in
      if soft_full s then s
      else
        (ring_store s entry
           ((ring_at s entry)\<lparr>cse_context := context, cse_len := l,
                               cse_prov_errno := perrno\<rparr>))
        \<lparr>cq_head := ring_next s entry, cq_last_op := USDF_SOFT_CQ_WRITE\<rparr>)"

text \<open>
  \<^verbatim>\<open>usdf_progress_hard_cq\<close>: \<open>cmp\<close> is \<^verbatim>\<open>cq->cq_comp\<close> of the owning queue, the list is
  the hardware queue \<^verbatim>\<open>hcq->cqh_ucq\<close>. The completion polled goes to the local
  \<^verbatim>\<open>comp\<close>; the entry is filled from \<^verbatim>\<open>cq->cq_comp\<close>.
\<close>

fun usdf_progress_hard_cq ::
  "usd_completion \<Rightarrow> usdf_cq_soft \<Rightarrow> usd_cq \<Rightarrow> usdf_cq_soft \<times> usd_cq" where
  "usdf_progress_hard_cq cmp s [] = (s, [])"
| "usdf_progress_hard_cq cmp s (None # hw) = (s, hw)"
| "usdf_progress_hard_cq cmp s (Some polled # hw) =
     (let entry = cq_head s in
      if soft_full s then (s, hw)
      else usdf_progress_hard_cq cmp
             ((ring_store s entry
                 ((ring_at s entry)\<lparr>cse_context := uc_context cmp, cse_flags := {},
                                     cse_len := ucast (uc_bytes cmp), cse_buf := 0,
                                     cse_data := 0\<rparr>))
              \<lparr>cq_head := ring_next s entry, cq_last_op := USDF_SOFT_CQ_WRITE\<rparr>) hw)"

text \<open>
  What the claim about the pump calls the normalization of a raw completion: context,
  byte count and status code in the entry's context, length and provider error code.
\<close>

definition normalized :: "usd_completion \<Rightarrow> usdf_cq_soft_entry \<Rightarrow> bool" where
  "normalized polled e =
     (cse_context e = uc_context polled \<and> cse_len e = ucast (uc_bytes polled)
      \<and> cse_prov_errno e = uc_status polled)"

definition usdf_cq_readerr_soft ::
  "usdf_cq_soft \<Rightarrow> fi_cq_err_entry \<Rightarrow> (fi_errno + nat) \<times> usdf_cq_soft \<times> fi_cq_err_entry" where
  "usdf_cq_readerr_soft s entry =
     (let tail = cq_tail s;
          entry' = entry\<lparr>err_op_context := cse_context (ring_at s tail), err_flags := {},
                         err := FI_EIO, prov_errno := cse_prov_errno (ring_at s tail)\<rparr>
      in (Inr 1, s\<lparr>cq_tail := ring_next s tail\<rparr>, entry'))"

definition usdf_cq_copy_soft_entry ::
  "usdf_cq_soft_entry \<Rightarrow> fi_cq_format \<Rightarrow> fi_errno + cq_out" where
  "usdf_cq_copy_soft_entry src dst_format =
     (case dst_format of
        FI_CQ_FORMAT_CONTEXT \<Rightarrow> Inr (Out_context \<lparr>op_context = cse_context src\<rparr>)
      | FI_CQ_FORMAT_MSG \<Rightarrow>
          Inr (Out_msg \<lparr>op_context = cse_context src, flags = cse_flags src,
                        len = cse_len src\<rparr>)
      | FI_CQ_FORMAT_DATA \<Rightarrow>
          Inr (Out_data \<lparr>op_context = cse_context src, flags = cse_flags src,
                         len = cse_len src, buf = cse_buf src, data = cse_data src\<rparr>)
      | _ \<Rightarrow> Inl FI_EOPNOTSUPP)"


subsection \<open>Soft mode: reads\<close>

text \<open>
  Modelled from the spec: \<^verbatim>\<open>usdf_domain_progress\<close> (usdf\_progress.c) is not among the
  sources; the spec gives it as the sweep that lets the hardware queues of the domain
  produce completions. The domain is the list of what the sweeps to come will do to
  this queue; once the list is used up a sweep leaves the queue as it is.
\<close>

type_synonym usdf_domain = "(usdf_cq_soft \<Rightarrow> usdf_cq_soft) list"

fun usdf_domain_progress :: "usdf_domain \<Rightarrow> usdf_cq_soft \<Rightarrow> usdf_cq_soft \<times> usdf_domain" where
  "usdf_domain_progress [] s = (s, [])"
| "usdf_domain_progress (f # udp) s = (f s, udp)"

text \<open>How the inner loop of a soft read was left: by \<^verbatim>\<open>break\<close> or the loop test, or by \<^verbatim>\<open>return\<close>.\<close>

datatype loop_exit = Fell_out | Returned "fi_errno + nat"

text \<open>
  The loop over the ring that \<^verbatim>\<open>usdf_cq_read_common_soft\<close> and
  \<^verbatim>\<open>usdf_cq_sread_common_soft\<close> share: \<open>tail\<close> is the local of that name, \<open>acc\<close> the
  entries written so far.
\<close>

function usdf_cq_soft_loop ::
  "fi_cq_format \<Rightarrow> nat \<Rightarrow> usdf_cq_soft \<Rightarrow> nat \<Rightarrow> cq_out list
     \<Rightarrow> loop_exit \<times> usdf_cq_soft \<times> nat \<times> cq_out list" where
  "usdf_cq_soft_loop fmt count s tail acc =
     (if length acc < count then
        (if tail = cq_head s \<and> cq_last_op s = USDF_SOFT_CQ_READ then (Fell_out, s, tail, acc)
         else if cse_prov_errno (ring_at s tail) > 0 then
           (if acc \<noteq> [] then (Fell_out, s, tail, acc)
            else (Returned (Inl FI_EAVAIL), s, tail, acc))
         else (case usdf_cq_copy_soft_entry (ring_at s tail) fmt of
                 Inl e \<Rightarrow> (Returned (Inl e), s, tail, acc)
               | Inr ent \<Rightarrow>
                   usdf_cq_soft_loop fmt count (s\<lparr>cq_last_op := USDF_SOFT_CQ_READ\<rparr>)
                     (ring_next s tail) (acc @ [ent])))
      else (Fell_out, s, tail, acc))"
  by pat_completeness auto
termination
  by (relation "measure (\<lambda>(fmt, count, s, tail, acc). count - length acc)") auto

definition usdf_cq_read_common_soft ::
  "usdf_domain \<Rightarrow> usdf_cq \<Rightarrow> nat \<Rightarrow> fi_cq_format
     \<Rightarrow> (fi_errno + nat) \<times> usdf_cq \<times> usdf_domain \<times> cq_out list" where
  "usdf_cq_read_common_soft udp cq count fmt =
     (if uc_status (cq_comp cq) \<noteq> 0 then (Inl FI_EAVAIL, cq, udp, [])
      else
        (case usdf_domain_progress udp (soft (c_union cq)) of
           (s, udp') \<Rightarrow>
             if fmt = FI_CQ_FORMAT_CONTEXT \<or> fmt = FI_CQ_FORMAT_MSG \<or> fmt = FI_CQ_FORMAT_DATA
             then
               (case usdf_cq_soft_loop fmt count s (cq_tail s) [] of
                  (Returned r, s', tail, out) \<Rightarrow> (r, cq\<lparr>c_union := Soft s'\<rparr>, udp', out)
                | (Fell_out, s', tail, out) \<Rightarrow>
                    (if out \<noteq> [] then Inr (length out) else Inl FI_EAGAIN,
                     cq\<lparr>c_union := Soft (s'\<lparr>cq_tail := tail\<rparr>)\<rparr>, udp', out))
             else (Inl FI_EOPNOTSUPP, cq\<lparr>c_union := Soft s\<rparr>, udp', [])))"

text \<open>
  The variables of a blocking soft read. The outer loop runs on fuel, one unit for each
  sweep of the domain; \<open>None\<close> as the returned value says the fuel ran out.
\<close>

record soft_sread_state =
  soft_ring :: usdf_cq_soft
  domain :: usdf_domain
  out_entries :: "cq_out list"
  soft_sleep_time_us :: nat
  soft_time_spent_us :: nat
  soft_slept :: "nat list"

fun usdf_cq_sread_soft_loop ::
  "nat \<Rightarrow> usdf_consts \<Rightarrow> fi_cq_format \<Rightarrow> nat \<Rightarrow> int \<Rightarrow> soft_sread_state
     \<Rightarrow> (fi_errno + nat) option \<times> soft_sread_state" where
  "usdf_cq_sread_soft_loop 0 K fmt count timeout_ms st = (None, st)"
| "usdf_cq_sread_soft_loop (Suc n) K fmt count timeout_ms st =
     (case usdf_domain_progress (domain st) (soft_ring st) of
        (s, udp') \<Rightarrow>
          (case usdf_cq_soft_loop fmt count s (cq_tail s) (out_entries st) of
             (Returned r, s', tail, out) \<Rightarrow>
               (Some r, st\<lparr>soft_ring := s', domain := udp', out_entries := out\<rparr>)
           | (Fell_out, s', tail, out) \<Rightarrow>
               (if out \<noteq> [] then
                  (Some (Inr (length out)),
                   st\<lparr>soft_ring := s'\<lparr>cq_tail := tail\<rparr>, domain := udp', out_entries := out\<rparr>)
                else if deadline_passed timeout_ms (soft_time_spent_us st) then
                  (Some (Inl FI_EAGAIN), st\<lparr>soft_ring := s', domain := udp', out_entries := out\<rparr>)
                else
                  usdf_cq_sread_soft_loop n K fmt count timeout_ms
                    (st\<lparr>soft_ring := s', domain := udp', out_entries := out,
                        soft_slept := soft_slept st @ [soft_sleep_time_us st],
                        soft_time_spent_us :=
                          (soft_time_spent_us st + soft_sleep_time_us st) mod 2 ^ 64,
                        soft_sleep_time_us := next_sleep_time K (soft_sleep_time_us st)\<rparr>))))"

definition usdf_cq_sread_common_soft ::
  "nat \<Rightarrow> usdf_consts \<Rightarrow> usdf_domain \<Rightarrow> usdf_cq \<Rightarrow> nat \<Rightarrow> int \<Rightarrow> fi_cq_format
     \<Rightarrow> (fi_errno + nat) option \<times> soft_sread_state" where
  "usdf_cq_sread_common_soft fuel K udp cq count timeout_ms fmt =
     (let st = \<lparr>soft_ring = soft (c_union cq), domain = udp, out_entries = [],
                soft_sleep_time_us = SREAD_INIT_SLEEP_TIME_US K, soft_time_spent_us = 0,
                soft_slept = []\<rparr>
      in if fmt = FI_CQ_FORMAT_CONTEXT \<or> fmt = FI_CQ_FORMAT_MSG \<or> fmt = FI_CQ_FORMAT_DATA
         then usdf_cq_sread_soft_loop fuel K fmt count timeout_ms st
         else (Some (Inl FI_EOPNOTSUPP), st))"

subsection \<open>Mode switch and lifecycle\<close>

definition usdf_cq_is_soft :: "usdf_cq \<Rightarrow> bool" where
  "usdf_cq_is_soft cq =
     (case format (cq_attr cq) of
        FI_CQ_FORMAT_CONTEXT \<Rightarrow> cq_fid_ops cq = usdf_cq_context_soft_ops
      | FI_CQ_FORMAT_MSG \<Rightarrow> cq_fid_ops cq = usdf_cq_msg_soft_ops
      | FI_CQ_FORMAT_DATA \<Rightarrow> cq_fid_ops cq = usdf_cq_data_soft_ops
      | _ \<Rightarrow> False)"

text \<open>The entry that \<^verbatim>\<open>calloc\<close> hands out: all bytes zero.\<close>

definition zero_soft_entry :: usdf_cq_soft_entry where
  "zero_soft_entry =
     \<lparr>cse_context = 0, cse_flags = {}, cse_len = 0, cse_buf = 0, cse_data = 0,
      cse_prov_errno = 0\<rparr>"

text \<open>
  The body of \<^verbatim>\<open>usdf_cq_make_soft\<close> under \<^verbatim>\<open>cq->cq_fid.ops == hard_ops\<close>. The two
  booleans say whether \<^verbatim>\<open>calloc\<close> of the ring and \<^verbatim>\<open>malloc\<close> of the binding succeed.
\<close>

definition make_soft_body ::
  "bool \<Rightarrow> bool \<Rightarrow> fi_ops_cq \<Rightarrow> usdf_cq \<Rightarrow> (fi_errno + nat) \<times> usdf_cq \<times> mem_event list" where
  "make_soft_body calloc_ok malloc_ok soft_ops cq =
     (let ucq = hard_cq_cq (c_union cq);
          s0 = (soft (c_union cq))\<lparr>cq_list := []\<rparr>;
          n = size_attr (cq_attr cq)
      in if \<not> calloc_ok then
           (Inl FI_ENOMEM, cq\<lparr>c_union := Soft (s0\<lparr>cq_comps := None\<rparr>)\<rparr>, [Calloc_comps n])
         else
           let s1 = s0\<lparr>cq_comps := Some (replicate n zero_soft_entry), cq_end := n,
                       cq_head := 0, cq_tail := 0\<rparr>
           in (case ucq of
                 Some u \<Rightarrow>
                   if \<not> malloc_ok then
                     (Inl FI_ENOMEM, cq\<lparr>c_union := Hard ucq\<rparr>,
                      [Calloc_comps n, Malloc_hcq, Free_comps])
                   else
                     let hcq = \<lparr>cqh_ucq = ucq, cqh_progress = Usdf_progress_hard_cq,
                                cqh_refcnt = cq_refcnt cq\<rparr>
                     in (Inr 0,
                         cq\<lparr>c_union := Soft (s1\<lparr>cq_list := hcq # cq_list s1\<rparr>),
                            cq_fid_ops := soft_ops\<rparr>,
                         [Calloc_comps n, Malloc_hcq])
               | None \<Rightarrow>
                   (Inr 0, cq\<lparr>c_union := Soft s1, cq_fid_ops := soft_ops\<rparr>, [Calloc_comps n])))"

definition usdf_cq_make_soft ::
  "bool \<Rightarrow> bool \<Rightarrow> usdf_cq \<Rightarrow> (fi_errno + nat) \<times> usdf_cq \<times> mem_event list" where
  "usdf_cq_make_soft calloc_ok malloc_ok cq =
     (case format (cq_attr cq) of
        FI_CQ_FORMAT_CONTEXT \<Rightarrow>
          if cq_fid_ops cq = usdf_cq_context_ops
          then make_soft_body calloc_ok malloc_ok usdf_cq_context_soft_ops cq
          else (Inr 0, cq, [])
      | FI_CQ_FORMAT_MSG \<Rightarrow>
          if cq_fid_ops cq = usdf_cq_msg_ops
          then make_soft_body calloc_ok malloc_ok usdf_cq_msg_soft_ops cq
          else (Inr 0, cq, [])
      | FI_CQ_FORMAT_DATA \<Rightarrow>
          if cq_fid_ops cq = usdf_cq_data_ops
          then make_soft_body calloc_ok malloc_ok usdf_cq_data_soft_ops cq
          else (Inr 0, cq, [])
      | _ \<Rightarrow> (Inr 0, cq, []))"


text \<open>
  The loop of \<^verbatim>\<open>usdf_cq_close\<close> over the binding list. \<open>destroy\<close> is what
  \<^verbatim>\<open>usd_destroy_cq\<close> returns for a hardware queue (0 for success). The result is the
  returned value (or \<open>Inr 0\<close> when the loop ends), the list left, and the calls made.
\<close>

fun usdf_cq_close_list ::
  "(nat \<Rightarrow> int) \<Rightarrow> usdf_cq_hard list \<Rightarrow> mem_event list
     \<Rightarrow> (fi_errno + nat) \<times> usdf_cq_hard list \<times> mem_event list" where
  "usdf_cq_close_list destroy [] evs = (Inr 0, [], evs)"
| "usdf_cq_close_list destroy (hcq # rest) evs =
     (if cqh_refcnt hcq > 0 then (Inl FI_EBUSY, hcq # rest, evs)
      else (case cqh_ucq hcq of
              None \<Rightarrow> usdf_cq_close_list destroy rest (evs @ [Free_hcq hcq])
            | Some u \<Rightarrow>
                if destroy u \<noteq> 0 then (Inl (USD_ERROR (destroy u)), rest, evs @ [Destroy_cq u])
                else usdf_cq_close_list destroy rest (evs @ [Destroy_cq u, Free_hcq hcq])))"

definition usdf_cq_close ::
  "(nat \<Rightarrow> int) \<Rightarrow> usdf_cq \<Rightarrow> (fi_errno + nat) \<times> usdf_cq \<times> mem_event list" where
  "usdf_cq_close destroy cq =
     (if cq_refcnt cq > 0 then (Inl FI_EBUSY, cq, [])
      else if usdf_cq_is_soft cq then
        (case usdf_cq_close_list destroy (cq_list (soft (c_union cq))) [] of
           (Inl e, l, evs) \<Rightarrow> (Inl e, cq\<lparr>c_union := Soft ((soft (c_union cq))\<lparr>cq_list := l\<rparr>)\<rparr>, evs)
         | (Inr r, l, evs) \<Rightarrow>
             (Inr 0, cq\<lparr>c_union := Soft ((soft (c_union cq))\<lparr>cq_list := l\<rparr>)\<rparr>,
              evs @ [Free_cq]))
      else
        (case hard_cq_cq (c_union cq) of
           None \<Rightarrow> (Inr 0, cq, [Free_cq])
         | Some u \<Rightarrow>
             if destroy u \<noteq> 0 then (Inl (USD_ERROR (destroy u)), cq, [Destroy_cq u])
             else (Inr 0, cq, [Destroy_cq u, Free_cq])))"

text \<open>
  \<^verbatim>\<open>usdf_cq_process_attr\<close>; \<open>uda_max_cqe\<close> is
  \<^verbatim>\<open>udp->dom_fabric->fab_dev_attrs->uda_max_cqe\<close>. The attributes are changed in place,
  so they are returned.
\<close>

definition usdf_cq_process_attr :: "fi_cq_attr \<Rightarrow> nat \<Rightarrow> (fi_errno + nat) \<times> fi_cq_attr" where
  "usdf_cq_process_attr attr uda_max_cqe =
     (if wait_obj attr \<noteq> FI_WAIT_NONE then (Inl FI_ENOSYS, attr)
      else if size_attr attr > uda_max_cqe then (Inl FI_EINVAL, attr)
      else
        let attr1 = (if size_attr attr = 0 then attr\<lparr>size_attr := uda_max_cqe\<rparr> else attr);
            attr2 = (if format attr1 = FI_CQ_FORMAT_UNSPEC
                     then attr1\<lparr>format := FI_CQ_FORMAT_CONTEXT\<rparr> else attr1)
        in (Inr 0, attr2))"

text \<open>
  The queue that \<^verbatim>\<open>calloc(1, sizeof(*cq))\<close> hands out and \<^verbatim>\<open>usdf_cq_open\<close> fills in
  before it selects the operation table: all bytes zero but for the context, so the
  operation table is \<^verbatim>\<open>NULL\<close>.
\<close>

definition fresh_cq :: "nat \<Rightarrow> fi_cq_attr \<Rightarrow> usdf_cq" where
  "fresh_cq context zero_attr =
     \<lparr>cq_fid_context = context, cq_fid_ops = NULL_ops, cq_refcnt = 0,
      cq_attr = zero_attr, c_union = Hard None,
      cq_comp = \<lparr>uc_context = 0, uc_bytes = 0, uc_type = USD_COMPTYPE_SEND, uc_status = 0,
                 uc_qp = \<lparr>uq_context = \<lparr>ep_mode = {}\<rparr>\<rparr>\<rparr>\<rparr>"

definition zero_cq_attr :: fi_cq_attr where
  "zero_cq_attr = \<lparr>format = FI_CQ_FORMAT_UNSPEC, size_attr = 0, wait_obj = FI_WAIT_NONE\<rparr>"

text \<open>
  \<^verbatim>\<open>usdf_cq_open\<close>: the result is the returned value, the caller's attributes, the
  queue handed back through \<^verbatim>\<open>cq_o\<close> if any, and the allocator calls.
\<close>

definition usdf_cq_open ::
  "bool \<Rightarrow> nat \<Rightarrow> fi_cq_attr \<Rightarrow> nat
     \<Rightarrow> (fi_errno + nat) \<times> fi_cq_attr \<times> usdf_cq option \<times> mem_event list" where
  "usdf_cq_open calloc_ok uda_max_cqe attr context =
     (case usdf_cq_process_attr attr uda_max_cqe of
        (Inl e, attr') \<Rightarrow> (Inl e, attr', None, [])
      | (Inr r, attr') \<Rightarrow>
          if \<not> calloc_ok then (Inl FI_ENOMEM, attr', None, [Calloc_cq])
          else
            let cq = fresh_cq context zero_cq_attr in
            (case format attr' of
               FI_CQ_FORMAT_CONTEXT \<Rightarrow>
                 (Inr 0, attr', Some (cq\<lparr>cq_fid_ops := usdf_cq_context_ops, cq_attr := attr'\<rparr>),
                  [Calloc_cq])
             | FI_CQ_FORMAT_MSG \<Rightarrow>
                 (Inr 0, attr', Some (cq\<lparr>cq_fid_ops := usdf_cq_msg_ops, cq_attr := attr'\<rparr>),
                  [Calloc_cq])
             | FI_CQ_FORMAT_DATA \<Rightarrow>
                 (Inr 0, attr', Some (cq\<lparr>cq_fid_ops := usdf_cq_data_ops, cq_attr := attr'\<rparr>),
                  [Calloc_cq])
             | _ \<Rightarrow> (Inl FI_ENOSYS, attr', None, [Calloc_cq, Free_cq])))"

subsection \<open>What a ring holds\<close>

text \<open>
  The abstraction used to state what is in a ring: the number of entries between tail
  and head, and those entries from the tail on.
\<close>

definition ring_ok :: "usdf_cq_soft \<Rightarrow> bool" where
  "ring_ok s =
     (case cq_comps s of
        None \<Rightarrow> False
      | Some xs \<Rightarrow> length xs = cq_end s \<and> cq_head s < cq_end s \<and> cq_tail s < cq_end s)"

definition ring_count :: "usdf_cq_soft \<Rightarrow> nat" where
  "ring_count s =
     (if cq_head s = cq_tail s
      then (if cq_last_op s = USDF_SOFT_CQ_WRITE then cq_end s else 0)
      else if cq_tail s < cq_head s then cq_head s - cq_tail s
      else cq_end s - cq_tail s + cq_head s)"

definition pending :: "usdf_cq_soft \<Rightarrow> usdf_cq_soft_entry list" where
  "pending s = take (ring_count s) (rotate (cq_tail s) (the (cq_comps s)))"

text \<open>An empty ring of capacity \<open>n\<close> as \<^verbatim>\<open>usdf_cq_make_soft\<close> sets it up, with no binding.\<close>

definition empty_ring :: "nat \<Rightarrow> usdf_cq_soft" where
  "empty_ring n =
     \<lparr>cq_comps = Some (replicate n zero_soft_entry), cq_end = n, cq_head = 0, cq_tail = 0,
      cq_last_op = USDF_SOFT_CQ_READ, cq_list = []\<rparr>"

text \<open>A push as the arguments of one call of \<^verbatim>\<open>usdf_cq_post_soft\<close>; a run of pushes.\<close>

type_synonym push = "nat \<times> 64 word \<times> int"

fun post_all :: "usdf_cq_soft \<Rightarrow> push list \<Rightarrow> usdf_cq_soft" where
  "post_all s [] = s"
| "post_all s ((context, l, perrno) # ps) = post_all (usdf_cq_post_soft s context l perrno) ps"

definition pushed :: "usdf_cq_soft_entry \<Rightarrow> push" where
  "pushed e = (cse_context e, cse_len e, cse_prov_errno e)"


text \<open>
  Writing \<open>e\<close> at the head and advancing it: the step that \<^verbatim>\<open>usdf_cq_post_soft\<close> and
  \<^verbatim>\<open>usdf_progress_hard_cq\<close> both make on a ring that is not full.
\<close>

definition ring_put :: "usdf_cq_soft \<Rightarrow> usdf_cq_soft_entry \<Rightarrow> usdf_cq_soft" where
  "ring_put s e =
     (ring_store s (cq_head s) e)
       \<lparr>cq_head := ring_next s (cq_head s), cq_last_op := USDF_SOFT_CQ_WRITE\<rparr>"

text \<open>The test \<^verbatim>\<open>tail->cse_prov_errno > 0\<close> of the soft reads, negated.\<close>

definition no_error :: "usdf_cq_soft_entry \<Rightarrow> bool" where
  "no_error e = (cse_prov_errno e \<le> 0)"

text \<open>The formats for which the readers have an entry size.\<close>

definition valid_format :: "fi_cq_format \<Rightarrow> bool" where
  "valid_format fmt =
     (fmt = FI_CQ_FORMAT_CONTEXT \<or> fmt = FI_CQ_FORMAT_MSG \<or> fmt = FI_CQ_FORMAT_DATA)"

text \<open>The output entry that the copiers write for a valid format.\<close>

definition soft_out :: "fi_cq_format \<Rightarrow> usdf_cq_soft_entry \<Rightarrow> cq_out" where
  "soft_out fmt e = projr (usdf_cq_copy_soft_entry e fmt)"

definition hard_out :: "usdf_consts \<Rightarrow> fi_cq_format \<Rightarrow> usd_completion \<Rightarrow> cq_out" where
  "hard_out K fmt c = projr (usdf_cq_copy_cq_entry K c fmt)"

fun out_context :: "cq_out \<Rightarrow> nat" where
  "out_context (Out_context e) = op_context e"
| "out_context (Out_msg e) = op_context e"
| "out_context (Out_data e) = op_context e"

text \<open>
  How many entries a soft read with room for \<open>room\<close> takes from the pending entries
  \<open>p\<close>: those in front of the first one that carries an error.
\<close>

definition readable :: "nat \<Rightarrow> usdf_cq_soft_entry list \<Rightarrow> nat" where
  "readable room p = min room (length (takeWhile no_error p))"

text \<open>The quantum of the \<open>i\<close>-th sleep of a blocking read.\<close>

definition backoff_seq :: "usdf_consts \<Rightarrow> nat \<Rightarrow> nat" where
  "backoff_seq K i = (next_sleep_time K ^^ i) (SREAD_INIT_SLEEP_TIME_US K)"

text \<open>
  For a binding that \<^verbatim>\<open>usdf_cq_close\<close> takes off the list: whether its hardware queue
  can be destroyed, and the calls made for it then.
\<close>

definition destroy_ok :: "(nat \<Rightarrow> int) \<Rightarrow> usdf_cq_hard \<Rightarrow> bool" where
  "destroy_ok destroy hcq = (case cqh_ucq hcq of None \<Rightarrow> True | Some u \<Rightarrow> destroy u = 0)"

definition teardown :: "usdf_cq_hard \<Rightarrow> mem_event list" where
  "teardown hcq =
     (case cqh_ucq hcq of None \<Rightarrow> [Free_hcq hcq] | Some u \<Rightarrow> [Destroy_cq u, Free_hcq hcq])"

definition releasable :: "(nat \<Rightarrow> int) \<Rightarrow> usdf_cq_hard \<Rightarrow> bool" where
  "releasable destroy hcq = (cqh_refcnt hcq = 0 \<and> destroy_ok destroy hcq)"

subsection \<open>Inputs of the examples\<close>

definition consts0 :: usdf_consts where
  "consts0 =
     \<lparr>USDF_HDR_BUF_ENTRY = 64, sizeof_usd_udp_hdr = 42, SREAD_INIT_SLEEP_TIME_US = 1,
      SREAD_EXP_BASE = 2, SREAD_MAX_SLEEP_TIME_US = 5000\<rparr>"

text \<open>The settings of \<open>consts0\<close> with a maximum of 5, which the third doubling passes.\<close>

definition consts_cap :: usdf_consts where
  "consts_cap = consts0\<lparr>SREAD_MAX_SLEEP_TIME_US := 5\<rparr>"

definition qp0 :: usd_qp where
  "qp0 = \<lparr>uq_context = \<lparr>ep_mode = {}\<rparr>\<rparr>"


definition comp0 :: usd_completion where
  "comp0 =
     \<lparr>uc_context = 0, uc_bytes = 0, uc_type = USD_COMPTYPE_SEND, uc_status = 0, uc_qp = qp0\<rparr>"

definition comp_recv :: "nat \<Rightarrow> 32 word \<Rightarrow> int \<Rightarrow> usd_completion" where
  "comp_recv ctx n st =
     \<lparr>uc_context = ctx, uc_bytes = n, uc_type = USD_COMPTYPE_RECV, uc_status = st,
      uc_qp = qp0\<rparr>"

definition attr0 :: "fi_cq_format \<Rightarrow> nat \<Rightarrow> fi_cq_attr" where
  "attr0 fmt n = \<lparr>format = fmt, size_attr = n, wait_obj = FI_WAIT_NONE\<rparr>"

text \<open>A hard-mode queue of the context format, depth 4, bound to hardware queue 7.\<close>

definition hard_cq0 :: usdf_cq where
  "hard_cq0 =
     \<lparr>cq_fid_context = 0, cq_fid_ops = usdf_cq_context_ops, cq_refcnt = 0,
      cq_attr = attr0 FI_CQ_FORMAT_CONTEXT 4, c_union = Hard (Some 7), cq_comp = comp0\<rparr>"

text \<open>A soft-mode queue of the context format around the ring \<open>s\<close>.\<close>

definition soft_cq0 :: "usdf_cq_soft \<Rightarrow> usdf_cq" where
  "soft_cq0 s =
     \<lparr>cq_fid_context = 0, cq_fid_ops = usdf_cq_context_soft_ops, cq_refcnt = 0,
      cq_attr = attr0 FI_CQ_FORMAT_CONTEXT (cq_end s), c_union = Soft s, cq_comp = comp0\<rparr>"

definition err_entry0 :: fi_cq_err_entry where
  "err_entry0 = \<lparr>err_op_context = 0, err_flags = {}, err = FI_SUCCESS, prov_errno = 0\<rparr>"

definition binding0 :: "nat \<Rightarrow> nat \<Rightarrow> usdf_cq_hard" where
  "binding0 u refs =
     \<lparr>cqh_ucq = Some u, cqh_progress = Usdf_progress_hard_cq, cqh_refcnt = refs\<rparr>"

text \<open>\<^verbatim>\<open>usd_destroy_cq\<close> failing with -5 on hardware queue 1 and succeeding elsewhere.\<close>

definition destroy_fails_on_1 :: "nat \<Rightarrow> int" where
  "destroy_fails_on_1 u = (if u = 1 then - 5 else 0)"

definition destroy_succeeds :: "nat \<Rightarrow> int" where
  "destroy_succeeds u = 0"

text \<open>\<open>hard_cq0\<close> after a promotion in which both allocations succeed.\<close>

definition promoted_cq0 :: usdf_cq where
  "promoted_cq0 =
     hard_cq0\<lparr>c_union := Soft ((soft (Hard (Some 7)))
                  \<lparr>cq_list := [binding0 7 0],
                   cq_comps := Some (replicate 4 zero_soft_entry), cq_end := 4,
                   cq_head := 0, cq_tail := 0\<rparr>),
              cq_fid_ops := usdf_cq_context_soft_ops\<rparr>"

text \<open>A soft-mode queue with two bindings: hardware queue 1 unreferenced, 2 referenced once.\<close>

definition two_bindings_cq :: usdf_cq where
  "two_bindings_cq = soft_cq0 ((empty_ring 4)\<lparr>cq_list := [binding0 1 0, binding0 2 1]\<rparr>)"

text \<open>A ring of capacity 4 after two pushes without and one with a provider error code.\<close>

definition soft_entry0 :: "nat \<Rightarrow> 64 word \<Rightarrow> int \<Rightarrow> usdf_cq_soft_entry" where
  "soft_entry0 ctx l perrno =
     zero_soft_entry\<lparr>cse_context := ctx, cse_len := l, cse_prov_errno := perrno\<rparr>"

definition ring_two_then_error :: usdf_cq_soft where
  "ring_two_then_error = post_all (empty_ring 4) [(1, 10, 0), (2, 20, 0), (3, 0, 5)]"

text \<open>
  What holds of the quantum \<open>q\<close> and of the sleeps \<open>sl\<close> made so far throughout a blocking
  read: the sleeps are the first quanta of the schedule and \<open>q\<close> is the next one.
\<close>

definition backoff_inv :: "usdf_consts \<Rightarrow> nat \<Rightarrow> nat list \<Rightarrow> bool" where
  "backoff_inv K q sl = (q = backoff_seq K (length sl) \<and> sl = map (backoff_seq K) [0..<length sl])"

section \<open>Properties\<close>

subsection \<open>Rings of the examples, written out\<close>

lemma replicate_2: "replicate 2 x = [x, x]"
  by (simp add: numeral_2_eq_2)

lemma replicate_4: "replicate 4 x = [x, x, x, x]"
  by (simp add: numeral_eq_Suc)

subsection \<open>The length adjustment of the entry copier\<close>









subsection \<open>Opening a queue\<close>

text \<open>
  Claim C10. An open call whose attributes pass \<^verbatim>\<open>usdf_cq_process_attr\<close> and leave the
  format unspecified gets the context format: the caller's attributes are rewritten to
  it before the operation table is selected, and the queue that is created (when
  \<^verbatim>\<open>calloc\<close> succeeds; otherwise the call fails for lack of memory) carries the
  context format and the hard context operations, which the switch on the rewritten
  format puts where \<^verbatim>\<open>calloc\<close> left \<^verbatim>\<open>NULL\<close>.
\<close>

theorem open_defaults_to_context_format:
  assumes "fst (usdf_cq_process_attr attr uda_max_cqe) = Inr 0"
    and "format attr = FI_CQ_FORMAT_UNSPEC"
  shows "\<exists>attr' cq.
           usdf_cq_process_attr attr uda_max_cqe = (Inr 0, attr')
         \<and> format attr' = FI_CQ_FORMAT_CONTEXT
         \<and> usdf_cq_open True uda_max_cqe attr context = (Inr 0, attr', Some cq, [Calloc_cq])
         \<and> cq_attr cq = attr' \<and> format (cq_attr cq) = FI_CQ_FORMAT_CONTEXT
         \<and> cq_fid_ops cq = usdf_cq_context_ops
         \<and> usdf_cq_open False uda_max_cqe attr context
             = (Inl FI_ENOMEM, attr', None, [Calloc_cq])"
  using assms
  by (auto simp: usdf_cq_open_def usdf_cq_process_attr_def Let_def split: if_splits)

theorem open_defaults_to_context_format_witness:
  "\<exists>attr' cq.
     usdf_cq_open True 16 (attr0 FI_CQ_FORMAT_UNSPEC 0) 3 = (Inr 0, attr', Some cq, [Calloc_cq])
   \<and> attr' = attr0 FI_CQ_FORMAT_CONTEXT 16 \<and> cq_attr cq = attr'
   \<and> cq_fid_ops cq = usdf_cq_context_ops"
  using open_defaults_to_context_format [of "attr0 FI_CQ_FORMAT_UNSPEC 0" 16 3]
  by (auto simp: usdf_cq_process_attr_def attr0_def Let_def)

subsection \<open>Promotion to soft mode\<close>

lemma make_soft_noop:
  "usdf_cq_is_soft cq
      \<or> (format (cq_attr cq) \<noteq> FI_CQ_FORMAT_CONTEXT \<and> format (cq_attr cq) \<noteq> FI_CQ_FORMAT_MSG
          \<and> format (cq_attr cq) \<noteq> FI_CQ_FORMAT_DATA)
    \<Longrightarrow> usdf_cq_make_soft calloc_ok malloc_ok cq = (Inr 0, cq, [])"
  by (cases "format (cq_attr cq)") (auto simp: usdf_cq_make_soft_def usdf_cq_is_soft_def)

lemma make_soft_body_success:
  "make_soft_body a b sops cq = (Inr 0, cq', evs) \<Longrightarrow>
     cq_fid_ops cq' = sops \<and> cq_attr cq' = cq_attr cq"
  by (cases "hard_cq_cq (c_union cq)") (auto simp: make_soft_body_def Let_def split: if_splits)

lemma make_soft_success:
  "usdf_cq_make_soft a b cq = (Inr 0, cq', evs)
     \<Longrightarrow> usdf_cq_make_soft a' b' cq' = (Inr 0, cq', [])"
  by (cases "format (cq_attr cq)")
     (auto simp: usdf_cq_make_soft_def split: if_splits dest!: make_soft_body_success)

lemma promoted_cq0:
  "usdf_cq_make_soft True True hard_cq0 = (Inr 0, promoted_cq0, [Calloc_comps 4, Malloc_hcq])"
  by (simp add: promoted_cq0_def usdf_cq_make_soft_def make_soft_body_def hard_cq0_def
      attr0_def Let_def binding0_def)

lemma promoted_cq0_soft: "usdf_cq_is_soft promoted_cq0"
  by (simp add: promoted_cq0_def usdf_cq_is_soft_def hard_cq0_def attr0_def)

text \<open>
  Claim C9. Promotion is idempotent: on a queue that is in soft mode already, or whose
  format has no operation table, \<^verbatim>\<open>usdf_cq_make_soft\<close> returns 0, leaves the queue as
  it is and calls no allocator, so there is no second ring and no second binding; and
  whatever queue a promotion that returned 0 leaves, promoting it again is such a no-op.
\<close>

theorem make_soft_idempotent:
  "(usdf_cq_is_soft cq
      \<or> (format (cq_attr cq) \<noteq> FI_CQ_FORMAT_CONTEXT \<and> format (cq_attr cq) \<noteq> FI_CQ_FORMAT_MSG
          \<and> format (cq_attr cq) \<noteq> FI_CQ_FORMAT_DATA)
    \<longrightarrow> usdf_cq_make_soft calloc_ok malloc_ok cq = (Inr 0, cq, []))
   \<and> (usdf_cq_make_soft calloc_ok malloc_ok cq = (Inr 0, cq', evs)
    \<longrightarrow> usdf_cq_make_soft calloc_ok' malloc_ok' cq' = (Inr 0, cq', []))"
  using make_soft_noop [of cq calloc_ok malloc_ok]
        make_soft_success [of calloc_ok malloc_ok cq cq' evs calloc_ok' malloc_ok']
  by blast

theorem make_soft_idempotent_witness:
  "usdf_cq_make_soft True True hard_cq0 = (Inr 0, promoted_cq0, [Calloc_comps 4, Malloc_hcq])
   \<and> usdf_cq_is_soft promoted_cq0
   \<and> usdf_cq_make_soft True True promoted_cq0 = (Inr 0, promoted_cq0, [])
   \<and> usdf_cq_make_soft False False promoted_cq0 = (Inr 0, promoted_cq0, [])"
  using make_soft_idempotent [of promoted_cq0 True True promoted_cq0 "[]" True True]
        make_soft_idempotent [of hard_cq0 True True promoted_cq0
                                 "[Calloc_comps 4, Malloc_hcq]" False False]
        promoted_cq0 promoted_cq0_soft
  by simp

text \<open>
  Claim C2, at a failing input. \<open>hard_cq0\<close> is bound to hardware queue 7. When
  \<^verbatim>\<open>calloc\<close> of the ring fails, \<^verbatim>\<open>usdf_cq_make_soft\<close> returns \<^verbatim>\<open>-FI_ENOMEM\<close> with the
  union written through its soft member (the list head initialised, \<^verbatim>\<open>cq_comps\<close>
  \<^verbatim>\<open>NULL\<close>) and the saved handle not put back: the queue is not what it was,
  \<^verbatim>\<open>c.hard.cq_cq\<close> reads \<^verbatim>\<open>NULL\<close>, and a later promotion that succeeds ends with no
  binding for queue 7. When \<^verbatim>\<open>malloc\<close> of the binding fails instead, the handle is
  restored and the queue is unchanged.
\<close>

theorem make_soft_ring_alloc_failure:
  "usdf_cq_make_soft False True hard_cq0
     = (Inl FI_ENOMEM,
        hard_cq0\<lparr>c_union := Soft ((soft (Hard (Some 7)))\<lparr>cq_list := [], cq_comps := None\<rparr>)\<rparr>,
        [Calloc_comps 4])
   \<and> hard_cq_cq (c_union hard_cq0) = Some 7
   \<and> hard_cq_cq (c_union (fst (snd (usdf_cq_make_soft False True hard_cq0)))) = None
   \<and> fst (snd (usdf_cq_make_soft False True hard_cq0)) \<noteq> hard_cq0
   \<and> fst (usdf_cq_make_soft True True (fst (snd (usdf_cq_make_soft False True hard_cq0))))
       = Inr 0
   \<and> cq_list (soft (c_union (fst (snd
         (usdf_cq_make_soft True True (fst (snd (usdf_cq_make_soft False True hard_cq0))))))))
       = []
   \<and> usdf_cq_make_soft True False hard_cq0
       = (Inl FI_ENOMEM, hard_cq0, [Calloc_comps 4, Malloc_hcq, Free_comps])"
  by (simp add: usdf_cq_make_soft_def make_soft_body_def hard_cq0_def attr0_def Let_def)

subsection \<open>Error reads\<close>

lemma readerr_none:
  "uc_status (cq_comp cq) = 0 \<Longrightarrow> usdf_cq_readerr cq entry = (Inl FI_EAGAIN, cq, entry)"
  by (simp add: usdf_cq_readerr_def)

lemma readerr_some:
  assumes "uc_status (cq_comp cq) \<noteq> 0"
  shows "\<exists>entry'. usdf_cq_readerr cq entry
           = (Inr 1, cq\<lparr>cq_comp := (cq_comp cq)\<lparr>uc_status := 0\<rparr>\<rparr>, entry')
         \<and> err_op_context entry' = uc_context (cq_comp cq) \<and> err entry' = FI_EIO"
  using assms by (simp add: usdf_cq_readerr_def Let_def)

text \<open>
  Claim C3, at a failing input. On a soft-mode queue whose ring is empty (no entry
  pending, hence no error buffered) \<^verbatim>\<open>usdf_cq_readerr_soft\<close> does not return
  \<^verbatim>\<open>-FI_EAGAIN\<close>: it returns 1, hands out the slot at the tail and moves the tail past
  the head, after which the ring counts 3 pending entries where there is none.
\<close>

theorem readerr_soft_on_empty_ring:
  "ring_ok (empty_ring 4) \<and> pending (empty_ring 4) = []
   \<and> usdf_cq_readerr_soft (empty_ring 4) err_entry0
       = (Inr 1, (empty_ring 4)\<lparr>cq_tail := 1\<rparr>, err_entry0\<lparr>err := FI_EIO\<rparr>)
   \<and> ring_count ((empty_ring 4)\<lparr>cq_tail := 1\<rparr>) = 3"
  by (simp add: usdf_cq_readerr_soft_def empty_ring_def ring_ok_def pending_def ring_count_def
      err_entry0_def ring_at_def ring_next_def zero_soft_entry_def Let_def)

subsection \<open>The soft-mode pump\<close>

text \<open>
  Claim C1, at a failing input. The queue's own slot \<^verbatim>\<open>cq->cq_comp\<close> holds \<open>comp0\<close>;
  the hardware queue hands out a receive completion with context 7, 100 bytes and the
  status of a CRC error. The entry that \<^verbatim>\<open>usdf_progress_hard_cq\<close> pushes is filled
  from \<^verbatim>\<open>cq->cq_comp\<close>, not from the completion polled, and its provider error code is
  not written: context, length and error code are all 0.
\<close>

theorem progress_hard_cq_entry_not_from_poll:
  "usdf_progress_hard_cq comp0 (empty_ring 2) [Some (comp_recv 7 100 USD_COMPSTAT_ERROR_CRC)]
     = ((empty_ring 2)\<lparr>cq_head := 1, cq_last_op := USDF_SOFT_CQ_WRITE\<rparr>, [])
   \<and> pending ((empty_ring 2)\<lparr>cq_head := 1, cq_last_op := USDF_SOFT_CQ_WRITE\<rparr>)
       = [zero_soft_entry]
   \<and> \<not> normalized (comp_recv 7 100 USD_COMPSTAT_ERROR_CRC) zero_soft_entry
   \<and> cse_context zero_soft_entry \<noteq> uc_context (comp_recv 7 100 USD_COMPSTAT_ERROR_CRC)
   \<and> cse_len zero_soft_entry \<noteq> ucast (uc_bytes (comp_recv 7 100 USD_COMPSTAT_ERROR_CRC))
   \<and> cse_prov_errno zero_soft_entry \<noteq> uc_status (comp_recv 7 100 USD_COMPSTAT_ERROR_CRC)"
  by (simp add: empty_ring_def comp0_def comp_recv_def soft_full_def ring_store_def ring_at_def
      ring_next_def zero_soft_entry_def pending_def ring_count_def normalized_def
      USD_COMPSTAT_ERROR_CRC_def Let_def replicate_2)

subsection \<open>The ring: pushes and what is pending\<close>

lemma mod_add_neq:
  fixes t :: nat
  assumes "i < n" "n < C"
  shows "(t + i) mod C \<noteq> (t + n) mod C"
proof
  assume "(t + i) mod C = (t + n) mod C"
  then have "(t + n) mod C = (t + i) mod C" by simp
  then have "C dvd (t + n) - (t + i)"
    using assms by (simp add: mod_eq_dvd_iff_nat)
  then have "C dvd n - i" by simp
  then have "C \<le> n - i" using assms by (intro dvd_imp_le) simp_all
  then show False using assms by simp
qed

lemma take_rotate_step:
  assumes "0 < n" "n \<le> length xs" "t < length xs"
  shows "take n (rotate t xs) = xs ! t # take (n - 1) (rotate (Suc t mod length xs) xs)"
proof -
  have ne: "xs \<noteq> []" using assms by auto
  then obtain y ys where r: "rotate t xs = y # ys" by (cases "rotate t xs") auto
  have y: "y = xs ! t" using nth_rotate [of 0 xs t] assms r ne by simp
  have "rotate (Suc t mod length xs) xs = rotate (Suc t) xs" by (simp add: rotate_conv_mod [symmetric])
  also have "\<dots> = ys @ [y]" by (simp add: r)
  finally have "take (n - 1) (rotate (Suc t mod length xs) xs) = take (n - 1) ys"
    using assms r by (metis length_rotate length_Cons diff_Suc_1 diff_le_mono take_all_iff take_append append_Nil2 diff_is_0_eq' take_0)
  then show ?thesis using assms r y by (cases n) simp_all
qed

lemma ring_okD:
  "ring_ok s \<Longrightarrow> \<exists>xs. cq_comps s = Some xs \<and> length xs = cq_end s \<and> cq_head s < cq_end s \<and> cq_tail s < cq_end s"
  by (auto simp: ring_ok_def split: option.splits)

lemma ring_count_le: "ring_ok s \<Longrightarrow> ring_count s \<le> cq_end s"
  by (auto simp: ring_ok_def ring_count_def split: option.splits)

lemma ring_count_full: "ring_ok s \<Longrightarrow> soft_full s \<longleftrightarrow> ring_count s = cq_end s"
  by (auto simp: ring_ok_def ring_count_def soft_full_def split: option.splits)

lemma ring_count_empty:
  "ring_ok s \<Longrightarrow> (cq_tail s = cq_head s \<and> cq_last_op s = USDF_SOFT_CQ_READ) \<longleftrightarrow> ring_count s = 0"
  by (cases "cq_last_op s") (auto simp: ring_ok_def ring_count_def split: option.splits)

lemma head_pos: "ring_ok s \<Longrightarrow> cq_head s = (cq_tail s + ring_count s) mod cq_end s"
  by (auto simp: ring_ok_def ring_count_def split: option.splits)

lemma length_pending: "ring_ok s \<Longrightarrow> length (pending s) = ring_count s"
  by (auto simp: pending_def ring_ok_def ring_count_def split: option.splits)

lemma put_ok: "ring_ok s \<Longrightarrow> ring_ok (ring_put s e)"
  by (auto simp: ring_put_def ring_ok_def ring_store_def ring_next_def split: option.splits)

lemma put_count: "ring_ok s \<Longrightarrow> \<not> soft_full s \<Longrightarrow> ring_count (ring_put s e) = Suc (ring_count s)"
  by (cases "cq_last_op s") (auto simp: ring_put_def ring_ok_def ring_store_def ring_next_def ring_count_def soft_full_def split: option.splits if_splits)

lemma put_pending:
  assumes "ring_ok s" "\<not> soft_full s"
  shows "pending (ring_put s e) = pending s @ [e]"
proof -
  obtain xs where xs: "cq_comps s = Some xs" "length xs = cq_end s" "cq_head s < cq_end s" "cq_tail s < cq_end s"
    using ring_okD [OF assms(1)] by blast
  let ?n = "ring_count s" and ?t = "cq_tail s" and ?C = "cq_end s"
  have n: "?n < ?C" using assms ring_count_le [of s] ring_count_full [of s] by simp
  have h: "cq_head s = (?t + ?n) mod ?C" by (rule head_pos [OF assms(1)])
  have cnt: "ring_count (ring_put s e) = Suc ?n" by (rule put_count [OF assms])
  have comps: "the (cq_comps (ring_put s e)) = xs[cq_head s := e]" "cq_tail (ring_put s e) = ?t"
    by (simp_all add: ring_put_def ring_store_def xs)
  show ?thesis
  proof (rule nth_equalityI)
    show "length (pending (ring_put s e)) = length (pending s @ [e])"
      using n xs by (simp add: pending_def cnt comps)
  next
    fix i assume "i < length (pending (ring_put s e))"
    then have i: "i < Suc ?n" using n xs by (simp add: pending_def cnt comps)
    have iC: "i < ?C" using i n by simp
    show "pending (ring_put s e) ! i = (pending s @ [e]) ! i"
    proof (cases "i = ?n")
      case True
      then show ?thesis using n xs h
        by (simp add: pending_def cnt comps nth_rotate nth_append)
    next
      case False
      then have lt: "i < ?n" using i by simp
      have "(?t + i) mod ?C \<noteq> (?t + ?n) mod ?C"
        by (rule mod_add_neq [OF lt n])
      then show ?thesis using n xs h lt iC
        by (simp add: pending_def cnt comps nth_rotate nth_append)
    qed
  qed
qed

lemma step_ok:
  assumes "ring_ok (s\<lparr>cq_tail := t\<rparr>)"
  shows "ring_ok (s\<lparr>cq_last_op := USDF_SOFT_CQ_READ, cq_tail := ring_next s t\<rparr>)"
  using assms by (auto simp: ring_ok_def ring_next_def split: option.splits)

lemma step_count:
  assumes "ring_ok (s\<lparr>cq_tail := t\<rparr>)" "0 < ring_count (s\<lparr>cq_tail := t\<rparr>)"
  shows "ring_count (s\<lparr>cq_last_op := USDF_SOFT_CQ_READ, cq_tail := ring_next s t\<rparr>)
         = ring_count (s\<lparr>cq_tail := t\<rparr>) - 1"
  using assms
  by (cases "cq_last_op s") (auto simp: ring_ok_def ring_next_def ring_count_def split: option.splits if_splits)

lemma step_pending:
  assumes "ring_ok (s\<lparr>cq_tail := t\<rparr>)" "0 < ring_count (s\<lparr>cq_tail := t\<rparr>)"
  shows "pending (s\<lparr>cq_tail := t\<rparr>)
         = ring_at s t # pending (s\<lparr>cq_last_op := USDF_SOFT_CQ_READ, cq_tail := ring_next s t\<rparr>)"
proof -
  obtain xs where xs: "cq_comps s = Some xs" "length xs = cq_end s" "t < cq_end s"
    using ring_okD [OF assms(1)] by auto
  have le: "ring_count (s\<lparr>cq_tail := t\<rparr>) \<le> length xs"
    using ring_count_le [OF assms(1)] xs by simp
  have nx: "ring_next s t = Suc t mod length xs"
    using xs by (auto simp: ring_next_def mod_Suc)
  have c: "ring_count (s\<lparr>cq_last_op := USDF_SOFT_CQ_READ, cq_tail := ring_next s t\<rparr>)
           = ring_count (s\<lparr>cq_tail := t\<rparr>) - 1"
    by (rule step_count [OF assms])
  have "pending (s\<lparr>cq_tail := t\<rparr>) = take (ring_count (s\<lparr>cq_tail := t\<rparr>)) (rotate t xs)"
    by (simp add: pending_def xs)
  also have "\<dots> = xs ! t # take (ring_count (s\<lparr>cq_tail := t\<rparr>) - 1) (rotate (ring_next s t) xs)"
    using take_rotate_step [OF assms(2) le, of t] xs by (simp add: nx)
  also have "take (ring_count (s\<lparr>cq_tail := t\<rparr>) - 1) (rotate (ring_next s t) xs)
             = pending (s\<lparr>cq_last_op := USDF_SOFT_CQ_READ, cq_tail := ring_next s t\<rparr>)"
    unfolding pending_def c by (simp add: xs)
  finally show ?thesis by (simp add: ring_at_def xs)
qed


lemma copy_soft_valid:
  "valid_format fmt \<Longrightarrow> usdf_cq_copy_soft_entry e fmt = Inr (soft_out fmt e)"
  by (auto simp: valid_format_def soft_out_def usdf_cq_copy_soft_entry_def)

lemma readable_Cons:
  "no_error e \<Longrightarrow> readable (Suc room) (e # p) = Suc (readable room p)"
  "\<not> no_error e \<Longrightarrow> readable room (e # p) = 0"
  "readable room [] = 0" "readable 0 p = 0"
  by (simp_all add: readable_def)

declare usdf_cq_soft_loop.simps [simp del]

lemma soft_loop_char:
  assumes "ring_ok (s\<lparr>cq_tail := tail\<rparr>)" "valid_format fmt"
    and "usdf_cq_soft_loop fmt count s tail acc = (x, s', tail', out)"
  shows "ring_ok (s'\<lparr>cq_tail := tail'\<rparr>)
       \<and> out = acc @ map (soft_out fmt)
                  (take (readable (count - length acc) (pending (s\<lparr>cq_tail := tail\<rparr>)))
                     (pending (s\<lparr>cq_tail := tail\<rparr>)))
       \<and> pending (s'\<lparr>cq_tail := tail'\<rparr>)
           = drop (readable (count - length acc) (pending (s\<lparr>cq_tail := tail\<rparr>)))
               (pending (s\<lparr>cq_tail := tail\<rparr>))
       \<and> x = (if acc = [] \<and> 0 < count \<and> pending (s\<lparr>cq_tail := tail\<rparr>) \<noteq> []
                  \<and> \<not> no_error (hd (pending (s\<lparr>cq_tail := tail\<rparr>)))
               then Returned (Inl FI_EAVAIL) else Fell_out)
       \<and> cq_head s' = cq_head s \<and> cq_comps s' = cq_comps s \<and> cq_end s' = cq_end s
       \<and> cq_list s' = cq_list s
       \<and> (readable (count - length acc) (pending (s\<lparr>cq_tail := tail\<rparr>)) = 0
            \<longrightarrow> s' = s \<and> tail' = tail)"
  using assms
proof (induction fmt count s tail acc arbitrary: x s' tail' out rule: usdf_cq_soft_loop.induct)
  case (1 fmt count s tail acc)
  let ?v = "s\<lparr>cq_tail := tail\<rparr>"
  let ?p = "pending ?v"
  note ok = "1.prems"(1) and vf = "1.prems"(2)
  note run = "1.prems"(3) [unfolded usdf_cq_soft_loop.simps [of fmt count s tail acc]]
  show ?case
  proof (cases "length acc < count")
    case False
    then have "count - length acc = 0" by simp
    moreover from False run have "x = Fell_out" "s' = s" "tail' = tail" "out = acc"
      by auto
    ultimately show ?thesis using ok False by (auto simp: readable_Cons)
  next
    case room: True
    then obtain r where r: "count - length acc = Suc r" by (cases "count - length acc") auto
    show ?thesis
    proof (cases "tail = cq_head s \<and> cq_last_op s = USDF_SOFT_CQ_READ")
      case True
      then have "ring_count ?v = 0" using ring_count_empty [OF ok] by simp
      then have pe: "?p = []" using length_pending [OF ok] by simp
      from True room run have "x = Fell_out" "s' = s" "tail' = tail" "out = acc"
        by auto
      then show ?thesis using ok pe by (simp add: readable_Cons)
    next
      case ne: False
      then have cnt: "0 < ring_count ?v" using ring_count_empty [OF ok] by auto
      let ?s1 = "s\<lparr>cq_last_op := USDF_SOFT_CQ_READ\<rparr>"
      let ?t1 = "ring_next s tail"
      have pc: "?p = ring_at s tail # pending (?s1\<lparr>cq_tail := ?t1\<rparr>)"
        using step_pending [OF ok cnt] by simp
      have ok1: "ring_ok (?s1\<lparr>cq_tail := ?t1\<rparr>)" using step_ok [OF ok] by simp
      show ?thesis
      proof (cases "cse_prov_errno (ring_at s tail) > 0")
        case True
        then have bad: "\<not> no_error (ring_at s tail)" by (simp add: no_error_def)
        from True ne room run have res: "s' = s" "tail' = tail" "out = acc"
          "x = (if acc \<noteq> [] then Fell_out else Returned (Inl FI_EAVAIL))"
          by (auto split: if_splits)
        have rd: "readable (count - length acc) ?p = 0"
          by (subst pc) (simp add: readable_Cons bad)
        show ?thesis using ok res rd room bad pc by auto
      next
        case False
        then have good: "no_error (ring_at s tail)" by (simp add: no_error_def)
        have cp: "usdf_cq_copy_soft_entry (ring_at s tail) fmt = Inr (soft_out fmt (ring_at s tail))"
          by (rule copy_soft_valid [OF vf])
        have run1: "usdf_cq_soft_loop fmt count ?s1 ?t1 (acc @ [soft_out fmt (ring_at s tail)])
                    = (x, s', tail', out)"
          using run False ne room cp
          by simp
        have nx: "ring_next ?s1 = ring_next s" by (rule ext) (simp add: ring_next_def)
        have IH: "ring_ok (s'\<lparr>cq_tail := tail'\<rparr>)
          \<and> out = (acc @ [soft_out fmt (ring_at s tail)]) @ map (soft_out fmt)
                  (take (readable (count - length (acc @ [soft_out fmt (ring_at s tail)])) (pending (?s1\<lparr>cq_tail := ?t1\<rparr>)))
                     (pending (?s1\<lparr>cq_tail := ?t1\<rparr>)))
          \<and> pending (s'\<lparr>cq_tail := tail'\<rparr>)
           = drop (readable (count - length (acc @ [soft_out fmt (ring_at s tail)])) (pending (?s1\<lparr>cq_tail := ?t1\<rparr>)))
               (pending (?s1\<lparr>cq_tail := ?t1\<rparr>))
          \<and> x = Fell_out
          \<and> cq_head s' = cq_head ?s1 \<and> cq_comps s' = cq_comps ?s1 \<and> cq_end s' = cq_end ?s1
          \<and> cq_list s' = cq_list ?s1"
          using "1.IH" [OF room ne False cp ok1 vf run1] by simp
        have r1: "count - length (acc @ [soft_out fmt (ring_at s tail)]) = r" using r by simp
        have rd: "readable (count - length acc) ?p
                  = Suc (readable r (pending (?s1\<lparr>cq_tail := ?t1\<rparr>)))"
          unfolding r by (subst pc) (simp add: readable_Cons good)
        show ?thesis
          unfolding rd using IH unfolding r1
          by (subst (1 2 3 4) pc) (simp add: good)
      qed
    qed
  qed
qed


lemma post_soft_put:
  "usdf_cq_post_soft s context l perrno =
     (if soft_full s then s
      else ring_put s ((ring_at s (cq_head s))\<lparr>cse_context := context, cse_len := l,
                                               cse_prov_errno := perrno\<rparr>))"
  by (simp add: usdf_cq_post_soft_def ring_put_def Let_def)

lemma put_end: "cq_end (ring_put s e) = cq_end s"
  by (simp add: ring_put_def ring_store_def)

lemma post_all_char:
  "ring_ok s \<Longrightarrow>
     ring_ok (post_all s ps) \<and> cq_end (post_all s ps) = cq_end s
   \<and> ring_count (post_all s ps) = min (cq_end s) (ring_count s + length ps)
   \<and> map pushed (pending (post_all s ps))
       = map pushed (pending s) @ take (cq_end s - ring_count s) ps"
proof (induction ps arbitrary: s)
  case Nil
  then show ?case using ring_count_le [of s] by simp
next
  case (Cons a ps)
  obtain ctx l perrno where a: "a = (ctx, l, perrno)" by (cases a) auto
  show ?case
  proof (cases "soft_full s")
    case True
    then have full: "ring_count s = cq_end s" using ring_count_full [OF Cons.prems] by simp
    have "usdf_cq_post_soft s ctx l perrno = s" using True by (simp add: post_soft_put)
    then show ?thesis using Cons.IH [OF Cons.prems] full by (simp add: a)
  next
    case False
    let ?e = "(ring_at s (cq_head s))\<lparr>cse_context := ctx, cse_len := l,
                                        cse_prov_errno := perrno\<rparr>"
    have lt: "ring_count s < cq_end s"
      using False ring_count_full [OF Cons.prems] ring_count_le [OF Cons.prems] by simp
    have p: "usdf_cq_post_soft s ctx l perrno = ring_put s ?e"
      using False by (simp add: post_soft_put)
    have ok: "ring_ok (ring_put s ?e)" by (rule put_ok [OF Cons.prems])
    have c: "ring_count (ring_put s ?e) = Suc (ring_count s)"
      by (rule put_count [OF Cons.prems False])
    have pe: "pending (ring_put s ?e) = pending s @ [?e]"
      by (rule put_pending [OF Cons.prems False])
    have tk: "take (cq_end s - ring_count s) (a # ps) = a # take (cq_end s - Suc (ring_count s)) ps"
    proof -
      have e: "cq_end s - ring_count s = Suc (cq_end s - Suc (ring_count s))"
        using lt by arith
      show ?thesis by (subst e) simp
    qed
    have un: "post_all s (a # ps) = post_all (ring_put s ?e) ps" by (simp add: a p)
    have pu: "pushed ?e = a" by (simp add: pushed_def a)
    show ?thesis
      unfolding un using Cons.IH [OF ok] by (simp add: c pe put_end tk pu)
  qed
qed

subsection \<open>Soft-mode reads\<close>

lemma soft_view_id: "s\<lparr>cq_tail := cq_tail s\<rparr> = s" by simp

lemma readable_le: "readable room p \<le> length p"
  by (simp add: readable_def min.coboundedI2 length_takeWhile_le)

lemma read_soft_char:
  assumes st: "uc_status (cq_comp cq) = 0" and vf: "valid_format fmt"
    and sw: "usdf_domain_progress udp (soft (c_union cq)) = (s, udp')"
    and ok: "ring_ok s"
  shows "\<exists>cq'. usdf_cq_read_common_soft udp cq count fmt
           = (if 0 < readable count (pending s) then Inr (readable count (pending s))
              else if 0 < count \<and> pending s \<noteq> [] then Inl FI_EAVAIL else Inl FI_EAGAIN,
              cq', udp', map (soft_out fmt) (take (readable count (pending s)) (pending s)))
         \<and> ring_ok (soft (c_union cq'))
         \<and> pending (soft (c_union cq')) = drop (readable count (pending s)) (pending s)
         \<and> cq_list (soft (c_union cq')) = cq_list s
         \<and> cq_comp cq' = cq_comp cq \<and> cq_fid_ops cq' = cq_fid_ops cq
         \<and> (readable count (pending s) = 0 \<longrightarrow> cq' = cq\<lparr>c_union := Soft s\<rparr>)"
proof -
  obtain x s' tail' out where run: "usdf_cq_soft_loop fmt count s (cq_tail s) [] = (x, s', tail', out)"
    by (metis prod_cases4)
  let ?p = "pending s" and ?m = "readable count (pending s)"
  have ok': "ring_ok (s\<lparr>cq_tail := cq_tail s\<rparr>)" using ok by simp
  note ch = soft_loop_char [OF ok' vf run, simplified]
  have hd_bad: "?m = 0 \<Longrightarrow> 0 < count \<Longrightarrow> ?p \<noteq> [] \<Longrightarrow> \<not> no_error (hd ?p)"
    by (cases ?p) (auto simp: readable_def split: if_splits)
  have hd_good: "0 < ?m \<Longrightarrow> ?p \<noteq> [] \<and> no_error (hd ?p) \<and> 0 < count"
    by (cases ?p) (auto simp: readable_def split: if_splits)
  have vfm: "fmt = FI_CQ_FORMAT_CONTEXT \<or> fmt = FI_CQ_FORMAT_MSG \<or> fmt = FI_CQ_FORMAT_DATA"
    using vf by (simp add: valid_format_def)
  show ?thesis
  proof (cases "0 < ?m")
    case True
    then have x: "x = Fell_out" using ch hd_good by auto
    have ne: "out \<noteq> []" using ch True hd_good by (cases ?p) auto
    have len: "length out = ?m" using ch readable_le [of count ?p] by simp
    show ?thesis
      apply (rule exI [of _ "cq\<lparr>c_union := Soft (s'\<lparr>cq_tail := tail'\<rparr>)\<rparr>"])
      using st sw run x ne len ch True vfm
      by (simp add: usdf_cq_read_common_soft_def)
  next
    case False
    then have m0: "?m = 0" by simp
    then have same: "s' = s" "tail' = cq_tail s" "out = []" using ch by auto
    show ?thesis
    proof (cases "0 < count \<and> ?p \<noteq> []")
      case True
      then have x: "x = Returned (Inl FI_EAVAIL)" using ch hd_bad [OF m0] by auto
      show ?thesis
        apply (rule exI [of _ "cq\<lparr>c_union := Soft s\<rparr>"])
        using st sw run x same ch True m0 vfm ok
        by (simp add: usdf_cq_read_common_soft_def)
    next
      case F2: False
      then have x: "x = Fell_out" using ch by auto
      show ?thesis
        apply (rule exI [of _ "cq\<lparr>c_union := Soft s\<rparr>"])
        using st sw run x same ch F2 m0 vfm ok
        by (auto simp add: usdf_cq_read_common_soft_def)
    qed
  qed
qed

subsection \<open>Overflow of the ring\<close>

lemma post_all_append: "post_all s (xs @ ys) = post_all (post_all s xs) ys"
  by (induction xs arbitrary: s) auto

lemma post_all_full: "soft_full s \<Longrightarrow> post_all s ps = s"
  by (induction ps) (auto simp: post_soft_put)

lemma no_error_pushed: "no_error e \<longleftrightarrow> snd (snd (pushed e)) \<le> 0"
  by (simp add: no_error_def pushed_def)

lemma readable_all: "list_all no_error p \<Longrightarrow> readable room p = min room (length p)"
  by (simp add: readable_def list_all_iff takeWhile_eq_all_conv [THEN iffD2])

lemma out_context_soft: "valid_format fmt \<Longrightarrow> out_context (soft_out fmt e) = cse_context e"
  by (auto simp: valid_format_def soft_out_def usdf_cq_copy_soft_entry_def)

text \<open>
  Claim C6, amended. On a ring of capacity \<open>C\<close> that is empty, after \<open>N \<ge> C\<close> calls of
  \<^verbatim>\<open>usdf_cq_post_soft\<close> with no read in between, exactly the first \<open>C\<close> pushes are held,
  in push order; the ring is full, a push onto it leaves it unchanged, and the other
  \<open>N - C\<close> pushes have left no trace. If none of the entries held carries a positive
  provider error code (and the queue's own completion slot holds no error, and the sweep
  of the domain adds nothing), a read for \<open>count\<close> entries returns the first \<open>count\<close> of
  them in push order and leaves the others pending, so that reads return exactly the
  \<open>C\<close> entries.
\<close>

theorem ring_overflow_keeps_first:
  assumes ok: "ring_ok s" and empty: "ring_count s = 0" and n: "cq_end s \<le> length ps"
  shows "map pushed (pending (post_all s ps)) = take (cq_end s) ps
   \<and> length (pending (post_all s ps)) = cq_end s
   \<and> soft_full (post_all s ps)
   \<and> (\<forall>ctx l perrno. usdf_cq_post_soft (post_all s ps) ctx l perrno = post_all s ps)
   \<and> post_all s ps = post_all s (take (cq_end s) ps)
   \<and> (list_all (\<lambda>p. snd (snd p) \<le> 0) (take (cq_end s) ps) \<and> uc_status (cq_comp cq) = 0
        \<and> valid_format fmt \<and> c_union cq = Soft (post_all s ps)
        \<and> usdf_domain_progress udp (post_all s ps) = (post_all s ps, udp')
      \<longrightarrow> (\<exists>cq' out.
            usdf_cq_read_common_soft udp cq count fmt
              = (if 0 < count then Inr (min count (cq_end s)) else Inl FI_EAGAIN, cq', udp', out)
          \<and> out = map (soft_out fmt) (take count (pending (post_all s ps)))
          \<and> map out_context out = map fst (take count (take (cq_end s) ps))
          \<and> ring_ok (soft (c_union cq'))
          \<and> pending (soft (c_union cq')) = drop count (pending (post_all s ps))))"
proof -
  let ?s = "post_all s ps" and ?C = "cq_end s"
  note ch = post_all_char [OF ok, of ps]
  have pe: "pending s = []" using length_pending [OF ok] empty by simp
  have ok': "ring_ok ?s" and e': "cq_end ?s = ?C" using ch by simp_all
  have cnt: "ring_count ?s = ?C" using ch n empty by simp
  have kept: "map pushed (pending ?s) = take ?C ps" using ch pe empty by simp
  have len: "length (pending ?s) = ?C" using length_pending [OF ok'] cnt by simp
  have full: "soft_full ?s" using ring_count_full [OF ok'] cnt e' by simp
  have pos: "0 < ?C" using ring_okD [OF ok] by auto
  have drop: "post_all s ps = post_all s (take ?C ps)"
  proof -
    note ch1 = post_all_char [OF ok, of "take ?C ps"]
    have "ring_count (post_all s (take ?C ps)) = cq_end (post_all s (take ?C ps))"
      using ch1 n empty by simp
    then have "soft_full (post_all s (take ?C ps))"
      using ring_count_full [of "post_all s (take ?C ps)"] ch1 by simp
    then have "post_all (post_all s (take ?C ps)) (drop ?C ps) = post_all s (take ?C ps)"
      by (rule post_all_full)
    then show ?thesis using post_all_append [of s "take ?C ps" "drop ?C ps"] by simp
  qed
  have rd: "\<exists>cq' out.
            usdf_cq_read_common_soft udp cq count fmt
              = (if 0 < count then Inr (min count ?C) else Inl FI_EAGAIN, cq', udp', out)
          \<and> out = map (soft_out fmt) (take count (pending ?s))
          \<and> map out_context out = map fst (take count (take ?C ps))
          \<and> ring_ok (soft (c_union cq'))
          \<and> pending (soft (c_union cq')) = drop count (pending ?s)"
    if good: "list_all (\<lambda>p. snd (snd p) \<le> 0) (take ?C ps)" and st: "uc_status (cq_comp cq) = 0"
      and vf: "valid_format fmt" and u: "c_union cq = Soft ?s"
      and sw: "usdf_domain_progress udp ?s = (?s, udp')"
  proof -
    have "list_all (\<lambda>p. snd (snd p) \<le> 0) (map pushed (pending ?s))" using good kept by simp
    then have all: "list_all no_error (pending ?s)"
      by (simp add: list_all_iff no_error_pushed)
    have m: "readable count (pending ?s) = min count ?C"
      using readable_all [OF all] len by simp
    have sw': "usdf_domain_progress udp (soft (c_union cq)) = (?s, udp')" using sw u by simp
    obtain cq' where r: "usdf_cq_read_common_soft udp cq count fmt
           = (if 0 < readable count (pending ?s) then Inr (readable count (pending ?s))
              else if 0 < count \<and> pending ?s \<noteq> [] then Inl FI_EAVAIL else Inl FI_EAGAIN,
              cq', udp', map (soft_out fmt) (take (readable count (pending ?s)) (pending ?s)))"
      and ok2: "ring_ok (soft (c_union cq'))"
      and p2: "pending (soft (c_union cq')) = drop (readable count (pending ?s)) (pending ?s)"
      using read_soft_char [OF st vf sw' ok', of count] by blast
    have tk: "take (min count ?C) (pending ?s) = take count (pending ?s)"
      using len by (simp add: min_def)
    have dr: "drop (min count ?C) (pending ?s) = drop count (pending ?s)"
      using len by (simp add: min_def)
    have ctx: "map out_context (map (soft_out fmt) (take count (pending ?s)))
               = map fst (take count (take ?C ps))"
    proof -
      have "map out_context (map (soft_out fmt) (take count (pending ?s)))
            = map fst (map pushed (take count (pending ?s)))"
        by (simp add: out_context_soft [OF vf] pushed_def)
      also have "\<dots> = map fst (take count (map pushed (pending ?s)))" by (simp add: take_map)
      finally show ?thesis by (simp add: kept)
    qed
    show ?thesis
      apply (rule exI [of _ cq'], rule exI [of _ "map (soft_out fmt) (take count (pending ?s))"])
      using r ok2 p2 pos ctx by (simp add: m tk dr)
  qed
  show ?thesis
    using kept len full drop rd by (simp add: post_soft_put)
qed

lemma empty_ring_ok: "0 < n \<Longrightarrow> ring_ok (empty_ring n) \<and> ring_count (empty_ring n) = 0 \<and> cq_end (empty_ring n) = n"
  by (simp add: empty_ring_def ring_ok_def ring_count_def)

text \<open>Three pushes onto a ring of capacity 2, then a read for 5 entries.\<close>

theorem ring_overflow_keeps_first_witness:
  "map pushed (pending (post_all (empty_ring 2) [(1, 10, 0), (2, 20, 0), (3, 30, 0)]))
     = [(1, 10, 0), (2, 20, 0)]
   \<and> post_all (empty_ring 2) [(1, 10, 0), (2, 20, 0), (3, 30, 0)]
     = post_all (empty_ring 2) [(1, 10, 0), (2, 20, 0)]
   \<and> (\<exists>cq' out.
        usdf_cq_read_common_soft []
          (soft_cq0 (post_all (empty_ring 2) [(1, 10, 0), (2, 20, 0), (3, 30, 0)])) 5
          FI_CQ_FORMAT_CONTEXT = (Inr 2, cq', [], out)
      \<and> map out_context out = [1, 2] \<and> pending (soft (c_union cq')) = [])"
proof -
  let ?ps = "[(1::nat, 10::64 word, 0::int), (2, 20, 0), (3, 30, 0)]"
  let ?s = "post_all (empty_ring 2) ?ps"
  have ok: "ring_ok (empty_ring 2)" and em: "ring_count (empty_ring 2) = 0"
    and n: "cq_end (empty_ring 2) \<le> length ?ps"
    using empty_ring_ok [of 2] by simp_all
  have e: "cq_end (empty_ring 2) = 2" using empty_ring_ok [of 2] by simp
  note T = ring_overflow_keeps_first [OF ok em n, of "soft_cq0 ?s" FI_CQ_FORMAT_CONTEXT "[]" "[]" 5]
  have h: "list_all (\<lambda>p. snd (snd p) \<le> 0) (take (cq_end (empty_ring 2)) ?ps)
        \<and> uc_status (cq_comp (soft_cq0 ?s)) = 0
        \<and> valid_format FI_CQ_FORMAT_CONTEXT \<and> c_union (soft_cq0 ?s) = Soft ?s
        \<and> usdf_domain_progress [] ?s = (?s, [])"
    by (simp add: e soft_cq0_def comp0_def valid_format_def)
  from T h obtain cq' out where
    r: "usdf_cq_read_common_soft [] (soft_cq0 ?s) 5 FI_CQ_FORMAT_CONTEXT
          = (if 0 < (5::nat) then Inr (min 5 (cq_end (empty_ring 2))) else Inl FI_EAGAIN,
             cq', [], out)"
    and c: "map out_context out = map fst (take 5 (take (cq_end (empty_ring 2)) ?ps))"
    and p: "pending (soft (c_union cq')) = drop 5 (pending ?s)"
    by blast
  from T have len: "length (pending ?s) = cq_end (empty_ring 2)"
    and kept: "map pushed (pending ?s) = take (cq_end (empty_ring 2)) ?ps"
    and dr: "?s = post_all (empty_ring 2) (take (cq_end (empty_ring 2)) ?ps)"
    by blast+
  have "usdf_cq_read_common_soft [] (soft_cq0 ?s) 5 FI_CQ_FORMAT_CONTEXT = (Inr 2, cq', [], out)"
    using r by (simp add: e)
  moreover have "map out_context out = [1, 2]" using c by (simp add: e)
  moreover have "pending (soft (c_union cq')) = []" using p len by (simp add: e)
  moreover have "map pushed (pending ?s) = [(1, 10, 0), (2, 20, 0)]" using kept by (simp add: e)
  moreover have "?s = post_all (empty_ring 2) [(1, 10, 0), (2, 20, 0)]"
    using dr unfolding e by simp
  ultimately show ?thesis by simp
qed

text \<open>
  Claim C6 as stated fails where an entry held carries a provider error code: one push
  with error code 5 onto a ring of capacity 1 is held, and the read that follows returns
  \<^verbatim>\<open>-FI_EAVAIL\<close> and no entry.
\<close>

theorem soft_read_stops_at_error_entry:
  "ring_ok (empty_ring 1) \<and> ring_count (empty_ring 1) = 0
   \<and> cq_end (empty_ring 1) \<le> length [(1 :: nat, 0 :: 64 word, 5 :: int)]
   \<and> map pushed (pending (post_all (empty_ring 1) [(1, 0, 5)])) = [(1, 0, 5)]
   \<and> usdf_cq_read_common_soft [] (soft_cq0 (post_all (empty_ring 1) [(1, 0, 5)])) 1
        FI_CQ_FORMAT_CONTEXT
       = (Inl FI_EAVAIL, soft_cq0 (post_all (empty_ring 1) [(1, 0, 5)]), [], [])"
  by (simp add: empty_ring_def ring_ok_def ring_count_def usdf_cq_post_soft_def soft_full_def
      ring_store_def ring_at_def ring_next_def pending_def pushed_def zero_soft_entry_def
      usdf_cq_read_common_soft_def soft_cq0_def comp0_def usdf_cq_soft_loop.simps Let_def)

subsection \<open>Closing a queue\<close>

lemma close_list_step:
  "releasable destroy h \<Longrightarrow>
     usdf_cq_close_list destroy (h # rest) evs = usdf_cq_close_list destroy rest (evs @ teardown h)"
  by (cases "cqh_ucq h") (simp_all add: releasable_def destroy_ok_def teardown_def)

lemma close_list_prefix:
  "list_all (releasable destroy) pre \<Longrightarrow>
     usdf_cq_close_list destroy (pre @ rest) evs
       = usdf_cq_close_list destroy rest (evs @ concat (map teardown pre))"
  by (induction pre arbitrary: evs)
     (simp_all add: close_list_step del: usdf_cq_close_list.simps(2))

lemma close_list_busy:
  "0 < cqh_refcnt h \<Longrightarrow> usdf_cq_close_list destroy (h # post) evs = (Inl FI_EBUSY, h # post, evs)"
  by simp

lemma close_list_fail:
  "cqh_refcnt h = 0 \<Longrightarrow> cqh_ucq h = Some u \<Longrightarrow> destroy u \<noteq> 0 \<Longrightarrow>
     usdf_cq_close_list destroy (h # post) evs
       = (Inl (USD_ERROR (destroy u)), post, evs @ [Destroy_cq u])"
  by simp

lemma teardown_no_free_cq: "Free_cq \<notin> set (concat (map teardown l))"
  by (induction l) (auto simp: teardown_def split: option.splits)

text \<open>
  Claim C5, amended. Close returns \<^verbatim>\<open>-FI_EBUSY\<close> and calls neither \<^verbatim>\<open>free\<close> nor
  \<^verbatim>\<open>usd_destroy_cq\<close> when the queue's own reference count is not zero. Otherwise, on a
  soft-mode queue, it walks the binding list in order: at the first binding with a
  reference count above zero it returns \<^verbatim>\<open>-FI_EBUSY\<close>, the bindings in front of it
  having been taken off the list, their hardware queues destroyed and they freed; at a
  binding whose hardware queue cannot be destroyed it returns that error, with that
  binding off the list; when neither happens every binding and hardware queue is
  destroyed and the queue is freed. On a hard-mode queue a failure to destroy the bound
  hardware queue is returned. No path that returns an error frees the queue.
\<close>

theorem close_walks_bindings:
  "(0 < cq_refcnt cq \<longrightarrow> usdf_cq_close destroy cq = (Inl FI_EBUSY, cq, []))
   \<and> (cq_refcnt cq = 0 \<and> usdf_cq_is_soft cq \<and> cq_list (soft (c_union cq)) = pre @ h # post
        \<and> list_all (releasable destroy) pre \<and> 0 < cqh_refcnt h
      \<longrightarrow> (\<exists>cq'. usdf_cq_close destroy cq = (Inl FI_EBUSY, cq', concat (map teardown pre))
              \<and> cq_list (soft (c_union cq')) = h # post
              \<and> Free_cq \<notin> set (concat (map teardown pre))))
   \<and> (cq_refcnt cq = 0 \<and> usdf_cq_is_soft cq \<and> cq_list (soft (c_union cq)) = pre @ h # post
        \<and> list_all (releasable destroy) pre \<and> cqh_refcnt h = 0 \<and> cqh_ucq h = Some u
        \<and> destroy u \<noteq> 0
      \<longrightarrow> (\<exists>cq'. usdf_cq_close destroy cq
                   = (Inl (USD_ERROR (destroy u)), cq', concat (map teardown pre) @ [Destroy_cq u])
              \<and> cq_list (soft (c_union cq')) = post
              \<and> Free_cq \<notin> set (concat (map teardown pre) @ [Destroy_cq u])))
   \<and> (cq_refcnt cq = 0 \<and> usdf_cq_is_soft cq
        \<and> list_all (releasable destroy) (cq_list (soft (c_union cq)))
      \<longrightarrow> (\<exists>cq'. usdf_cq_close destroy cq
                   = (Inr 0, cq', concat (map teardown (cq_list (soft (c_union cq)))) @ [Free_cq])
              \<and> cq_list (soft (c_union cq')) = []))
   \<and> (cq_refcnt cq = 0 \<and> \<not> usdf_cq_is_soft cq \<and> hard_cq_cq (c_union cq) = Some u
        \<and> destroy u \<noteq> 0
      \<longrightarrow> usdf_cq_close destroy cq = (Inl (USD_ERROR (destroy u)), cq, [Destroy_cq u]))
   \<and> (cq_refcnt cq = 0 \<and> \<not> usdf_cq_is_soft cq \<and> hard_cq_cq (c_union cq) = Some u
        \<and> destroy u = 0
      \<longrightarrow> usdf_cq_close destroy cq = (Inr 0, cq, [Destroy_cq u, Free_cq]))"
proof (intro conjI impI)
  assume "0 < cq_refcnt cq"
  then show "usdf_cq_close destroy cq = (Inl FI_EBUSY, cq, [])"
    by (simp add: usdf_cq_close_def)
next
  assume a: "cq_refcnt cq = 0 \<and> usdf_cq_is_soft cq \<and> cq_list (soft (c_union cq)) = pre @ h # post
        \<and> list_all (releasable destroy) pre \<and> 0 < cqh_refcnt h"
  then have "usdf_cq_close_list destroy (cq_list (soft (c_union cq))) []
             = (Inl FI_EBUSY, h # post, concat (map teardown pre))"
    using close_list_prefix [of destroy pre "h # post" "[]"] by simp
  then show "\<exists>cq'. usdf_cq_close destroy cq = (Inl FI_EBUSY, cq', concat (map teardown pre))
              \<and> cq_list (soft (c_union cq')) = h # post
              \<and> Free_cq \<notin> set (concat (map teardown pre))"
    using a teardown_no_free_cq [of pre] by (simp add: usdf_cq_close_def)
next
  assume a: "cq_refcnt cq = 0 \<and> usdf_cq_is_soft cq \<and> cq_list (soft (c_union cq)) = pre @ h # post
        \<and> list_all (releasable destroy) pre \<and> cqh_refcnt h = 0 \<and> cqh_ucq h = Some u
        \<and> destroy u \<noteq> 0"
  then have "usdf_cq_close_list destroy (cq_list (soft (c_union cq))) []
             = (Inl (USD_ERROR (destroy u)), post, concat (map teardown pre) @ [Destroy_cq u])"
    using close_list_prefix [of destroy pre "h # post" "[]"] by simp
  then show "\<exists>cq'. usdf_cq_close destroy cq
                   = (Inl (USD_ERROR (destroy u)), cq', concat (map teardown pre) @ [Destroy_cq u])
              \<and> cq_list (soft (c_union cq')) = post
              \<and> Free_cq \<notin> set (concat (map teardown pre) @ [Destroy_cq u])"
    using a teardown_no_free_cq [of pre] by (simp add: usdf_cq_close_def)
next
  assume a: "cq_refcnt cq = 0 \<and> usdf_cq_is_soft cq
        \<and> list_all (releasable destroy) (cq_list (soft (c_union cq)))"
  then have "usdf_cq_close_list destroy (cq_list (soft (c_union cq))) []
             = (Inr 0, [], concat (map teardown (cq_list (soft (c_union cq)))))"
    using close_list_prefix [of destroy "cq_list (soft (c_union cq))" "[]" "[]"] by simp
  then show "\<exists>cq'. usdf_cq_close destroy cq
                   = (Inr 0, cq', concat (map teardown (cq_list (soft (c_union cq)))) @ [Free_cq])
              \<and> cq_list (soft (c_union cq')) = []"
    using a by (simp add: usdf_cq_close_def)
next
  assume "cq_refcnt cq = 0 \<and> \<not> usdf_cq_is_soft cq \<and> hard_cq_cq (c_union cq) = Some u
        \<and> destroy u \<noteq> 0"
  then show "usdf_cq_close destroy cq = (Inl (USD_ERROR (destroy u)), cq, [Destroy_cq u])"
    by (simp add: usdf_cq_close_def)
next
  assume "cq_refcnt cq = 0 \<and> \<not> usdf_cq_is_soft cq \<and> hard_cq_cq (c_union cq) = Some u
        \<and> destroy u = 0"
  then show "usdf_cq_close destroy cq = (Inr 0, cq, [Destroy_cq u, Free_cq])"
    by (simp add: usdf_cq_close_def)
qed

lemma two_bindings_cq_facts:
  "cq_refcnt two_bindings_cq = 0" "usdf_cq_is_soft two_bindings_cq"
  "cq_list (soft (c_union two_bindings_cq)) = [binding0 1 0, binding0 2 1]"
  by (simp_all add: two_bindings_cq_def soft_cq0_def usdf_cq_is_soft_def attr0_def)

text \<open>
  Claim C5 as stated fails where a hardware queue in front of a busy binding cannot be
  destroyed: the second binding of \<open>two_bindings_cq\<close> has a reference count of 1, and close
  returns the error of \<^verbatim>\<open>usd_destroy_cq\<close> on the first, not \<^verbatim>\<open>-FI_EBUSY\<close>.
\<close>

theorem close_destroy_failure_before_busy:
  "cq_refcnt two_bindings_cq = 0 \<and> usdf_cq_is_soft two_bindings_cq
   \<and> binding0 2 1 \<in> set (cq_list (soft (c_union two_bindings_cq)))
   \<and> cqh_refcnt (binding0 2 1) \<noteq> 0
   \<and> fst (usdf_cq_close destroy_fails_on_1 two_bindings_cq) = Inl (USD_ERROR (- 5))
   \<and> fst (usdf_cq_close destroy_fails_on_1 two_bindings_cq) \<noteq> Inl FI_EBUSY"
  by (simp add: two_bindings_cq_facts usdf_cq_close_def binding0_def destroy_fails_on_1_def)

theorem close_walks_bindings_witness:
  "usdf_cq_close destroy_succeeds (hard_cq0\<lparr>cq_refcnt := 2\<rparr>)
     = (Inl FI_EBUSY, hard_cq0\<lparr>cq_refcnt := 2\<rparr>, [])
   \<and> (\<exists>cq'. usdf_cq_close destroy_succeeds two_bindings_cq
              = (Inl FI_EBUSY, cq', [Destroy_cq 1, Free_hcq (binding0 1 0)])
          \<and> cq_list (soft (c_union cq')) = [binding0 2 1])
   \<and> (\<exists>cq'. usdf_cq_close destroy_fails_on_1 two_bindings_cq
              = (Inl (USD_ERROR (- 5)), cq', [Destroy_cq 1])
          \<and> cq_list (soft (c_union cq')) = [binding0 2 1])
   \<and> (\<exists>cq'. usdf_cq_close destroy_succeeds promoted_cq0
              = (Inr 0, cq', [Destroy_cq 7, Free_hcq (binding0 7 0), Free_cq])
          \<and> cq_list (soft (c_union cq')) = [])
   \<and> usdf_cq_close destroy_fails_on_1 (hard_cq0\<lparr>c_union := Hard (Some 1)\<rparr>)
     = (Inl (USD_ERROR (- 5)), hard_cq0\<lparr>c_union := Hard (Some 1)\<rparr>, [Destroy_cq 1])
   \<and> usdf_cq_close destroy_succeeds hard_cq0 = (Inr 0, hard_cq0, [Destroy_cq 7, Free_cq])"
proof -
  have w1: "usdf_cq_close destroy_succeeds (hard_cq0\<lparr>cq_refcnt := 2\<rparr>)
              = (Inl FI_EBUSY, hard_cq0\<lparr>cq_refcnt := 2\<rparr>, [])"
    using close_walks_bindings [where cq = "hard_cq0\<lparr>cq_refcnt := 2\<rparr>"
                                  and destroy = destroy_succeeds]
    by simp
  have w2: "\<exists>cq'. usdf_cq_close destroy_succeeds two_bindings_cq
              = (Inl FI_EBUSY, cq', [Destroy_cq 1, Free_hcq (binding0 1 0)])
          \<and> cq_list (soft (c_union cq')) = [binding0 2 1]"
    using close_walks_bindings [where cq = two_bindings_cq and pre = "[binding0 1 0]"
                            and h = "binding0 2 1" and post = "[]" and destroy = destroy_succeeds]
      two_bindings_cq_facts
    by (simp add: releasable_def destroy_ok_def teardown_def binding0_def destroy_succeeds_def)
  have w3: "\<exists>cq'. usdf_cq_close destroy_fails_on_1 two_bindings_cq
              = (Inl (USD_ERROR (- 5)), cq', [Destroy_cq 1])
          \<and> cq_list (soft (c_union cq')) = [binding0 2 1]"
    using close_walks_bindings [where cq = two_bindings_cq and pre = "[]" and h = "binding0 1 0"
                            and post = "[binding0 2 1]" and destroy = destroy_fails_on_1
                            and u = 1]
      two_bindings_cq_facts
    by (simp add: binding0_def destroy_fails_on_1_def)
  have p: "cq_refcnt promoted_cq0 = 0" "cq_list (soft (c_union promoted_cq0)) = [binding0 7 0]"
    by (simp_all add: promoted_cq0_def hard_cq0_def)
  have w4: "\<exists>cq'. usdf_cq_close destroy_succeeds promoted_cq0
              = (Inr 0, cq', [Destroy_cq 7, Free_hcq (binding0 7 0), Free_cq])
          \<and> cq_list (soft (c_union cq')) = []"
    using close_walks_bindings [where cq = promoted_cq0 and destroy = destroy_succeeds]
      p promoted_cq0_soft
    by (simp add: releasable_def destroy_ok_def teardown_def binding0_def destroy_succeeds_def)
  have h: "\<not> usdf_cq_is_soft (hard_cq0\<lparr>c_union := Hard (Some 1)\<rparr>)" "\<not> usdf_cq_is_soft hard_cq0"
    by (simp_all add: usdf_cq_is_soft_def hard_cq0_def attr0_def)
  have w5: "usdf_cq_close destroy_fails_on_1 (hard_cq0\<lparr>c_union := Hard (Some 1)\<rparr>)
     = (Inl (USD_ERROR (- 5)), hard_cq0\<lparr>c_union := Hard (Some 1)\<rparr>, [Destroy_cq 1])"
    using close_walks_bindings [where cq = "hard_cq0\<lparr>c_union := Hard (Some 1)\<rparr>"
                            and destroy = destroy_fails_on_1 and u = 1] h
    by (simp add: destroy_fails_on_1_def hard_cq0_def)
  have w6: "usdf_cq_close destroy_succeeds hard_cq0 = (Inr 0, hard_cq0, [Destroy_cq 7, Free_cq])"
    using close_walks_bindings [where cq = hard_cq0 and destroy = destroy_succeeds and u = 7] h
    by (simp add: destroy_succeeds_def hard_cq0_def)
  show ?thesis using w1 w2 w3 w4 w5 w6 by simp
qed

subsection \<open>Reads that meet an error\<close>

lemma copy_hard_valid:
  "valid_format fmt \<Longrightarrow> usdf_cq_copy_cq_entry K c fmt = Inr (hard_out K fmt c)"
  by (auto simp: valid_format_def hard_out_def usdf_cq_copy_cq_entry_def)

lemma read_loop_goods:
  assumes "valid_format fmt" "list_all (\<lambda>g. uc_status g = 0) goods" "uc_status e \<noteq> 0"
    and "length acc + length goods < count"
  shows "usdf_cq_read_loop K fmt count acc ret cmp (map Some goods @ Some e # rest)
         = (read_result (acc @ map (hard_out K fmt) goods) (Inl FI_EAVAIL), e, rest,
            acc @ map (hard_out K fmt) goods)"
  using assms
proof (induction goods arbitrary: acc ret cmp)
  case Nil
  then show ?case by simp
next
  case (Cons g goods)
  have "length (acc @ [hard_out K fmt g]) + length goods < count" using Cons.prems by simp
  from Cons.IH [OF Cons.prems(1) _ Cons.prems(3) this, of "Inr 0" g] Cons.prems
  show ?case by (simp add: copy_hard_valid)
qed

lemma sread_loop_goods:
  assumes "valid_format fmt" "list_all (\<lambda>g. uc_status g = 0) goods" "uc_status e \<noteq> 0"
    and "length (entries st) + length goods < count"
    and "hwq st = map Some goods @ Some e # rest" and "length goods < fuel"
  shows "usdf_cq_sread_loop fuel K fmt count timeout_ms st
         = (Some (read_result (entries st @ map (hard_out K fmt) goods) (Inl FI_EAVAIL)),
            st\<lparr>entries := entries st @ map (hard_out K fmt) goods, sticky := e, hwq := rest\<rparr>)"
  using assms
proof (induction goods arbitrary: st fuel)
  case Nil
  then obtain n where "fuel = Suc n" by (cases fuel) auto
  then show ?case using Nil by (simp add: read_result_def)
next
  case (Cons g goods)
  then obtain n where f: "fuel = Suc n" by (cases fuel) auto
  let ?st = "st\<lparr>sticky := g, hwq := map Some goods @ Some e # rest,
                 entries := entries st @ [hard_out K fmt g]\<rparr>"
  have "usdf_cq_sread_loop n K fmt count timeout_ms ?st
         = (Some (read_result (entries ?st @ map (hard_out K fmt) goods) (Inl FI_EAVAIL)),
            ?st\<lparr>entries := entries ?st @ map (hard_out K fmt) goods, sticky := e, hwq := rest\<rparr>)"
    using Cons.prems f by (intro Cons.IH) simp_all
  then show ?case using Cons.prems f by (simp add: copy_hard_valid)
qed

lemma hard_read_stops_at_error:
  "uc_status (cq_comp cq) = 0 \<and> valid_format fmt \<and> list_all (\<lambda>g. uc_status g = 0) goods
     \<and> uc_status e \<noteq> 0 \<and> length goods < count
   \<longrightarrow> usdf_cq_read_common K cq (map Some goods @ Some e # rest) count fmt
        = (if goods \<noteq> [] then Inr (length goods) else Inl FI_EAVAIL,
           cq\<lparr>cq_comp := e\<rparr>, rest, map (hard_out K fmt) goods)
     \<and> usdf_cq_read_common K (cq\<lparr>cq_comp := e\<rparr>) rest count' fmt'
        = (Inl FI_EAVAIL, cq\<lparr>cq_comp := e\<rparr>, rest, [])
     \<and> fst (usdf_cq_readerr (cq\<lparr>cq_comp := e\<rparr>) entry) = Inr 1
     \<and> err_op_context (snd (snd (usdf_cq_readerr (cq\<lparr>cq_comp := e\<rparr>) entry))) = uc_context e"
proof (intro impI)
  assume a: "uc_status (cq_comp cq) = 0 \<and> valid_format fmt
     \<and> list_all (\<lambda>g. uc_status g = 0) goods \<and> uc_status e \<noteq> 0 \<and> length goods < count"
  then have vf: "valid_format fmt" and g: "list_all (\<lambda>g. uc_status g = 0) goods"
    and e: "uc_status e \<noteq> 0" and c: "length [] + length goods < count" by simp_all
  have v: "fmt = FI_CQ_FORMAT_CONTEXT \<or> fmt = FI_CQ_FORMAT_MSG \<or> fmt = FI_CQ_FORMAT_DATA"
    using vf by (simp add: valid_format_def)
  show "usdf_cq_read_common K cq (map Some goods @ Some e # rest) count fmt
        = (if goods \<noteq> [] then Inr (length goods) else Inl FI_EAVAIL,
           cq\<lparr>cq_comp := e\<rparr>, rest, map (hard_out K fmt) goods)
     \<and> usdf_cq_read_common K (cq\<lparr>cq_comp := e\<rparr>) rest count' fmt'
        = (Inl FI_EAVAIL, cq\<lparr>cq_comp := e\<rparr>, rest, [])
     \<and> fst (usdf_cq_readerr (cq\<lparr>cq_comp := e\<rparr>) entry) = Inr 1
     \<and> err_op_context (snd (snd (usdf_cq_readerr (cq\<lparr>cq_comp := e\<rparr>) entry))) = uc_context e"
    using a v read_loop_goods [OF vf g e c, of K "Inr 0" "cq_comp cq" rest]
    by (simp add: usdf_cq_read_common_def read_result_def usdf_cq_readerr_def Let_def)
qed

lemma hard_sread_stops_at_error:
  "valid_format fmt \<and> list_all (\<lambda>g. uc_status g = 0) goods \<and> uc_status e \<noteq> 0
     \<and> length (entries st) + length goods < count
     \<and> hwq st = map Some goods @ Some e # rest \<and> length goods < fuel
   \<longrightarrow> usdf_cq_sread_loop fuel K fmt count timeout_ms st
        = (Some (if entries st @ map (hard_out K fmt) goods \<noteq> []
                 then Inr (length (entries st) + length goods) else Inl FI_EAVAIL),
           st\<lparr>entries := entries st @ map (hard_out K fmt) goods, sticky := e, hwq := rest\<rparr>)"
  using sread_loop_goods [of fmt goods e st count rest fuel K timeout_ms]
  by (simp add: read_result_def)

lemma hard_sread_common_stops_at_error:
  "uc_status (cq_comp cq) = 0 \<and> valid_format fmt \<and> list_all (\<lambda>g. uc_status g = 0) goods
     \<and> uc_status e \<noteq> 0 \<and> length goods < count \<and> length goods < fuel
   \<longrightarrow> (\<exists>st. usdf_cq_sread_common fuel K cq (map Some goods @ Some e # rest) count timeout_ms fmt
           = (Some (if goods \<noteq> [] then Inr (length goods) else Inl FI_EAVAIL), st)
        \<and> entries st = map (hard_out K fmt) goods \<and> sticky st = e \<and> hwq st = rest
        \<and> slept st = [])"
proof (intro impI)
  assume a: "uc_status (cq_comp cq) = 0 \<and> valid_format fmt
     \<and> list_all (\<lambda>g. uc_status g = 0) goods
     \<and> uc_status e \<noteq> 0 \<and> length goods < count \<and> length goods < fuel"
  let ?st = "\<lparr>entries = [], sticky = cq_comp cq, hwq = map Some goods @ Some e # rest,
                sleep_time_us = SREAD_INIT_SLEEP_TIME_US K, time_spent_us = 0, slept = []\<rparr>"
  have v: "fmt = FI_CQ_FORMAT_CONTEXT \<or> fmt = FI_CQ_FORMAT_MSG \<or> fmt = FI_CQ_FORMAT_DATA"
    using a by (simp add: valid_format_def)
  have "usdf_cq_sread_loop fuel K fmt count timeout_ms ?st
         = (Some (read_result (entries ?st @ map (hard_out K fmt) goods) (Inl FI_EAVAIL)),
            ?st\<lparr>entries := entries ?st @ map (hard_out K fmt) goods, sticky := e, hwq := rest\<rparr>)"
    using a by (intro sread_loop_goods) simp_all
  then show "\<exists>st. usdf_cq_sread_common fuel K cq (map Some goods @ Some e # rest) count timeout_ms fmt
           = (Some (if goods \<noteq> [] then Inr (length goods) else Inl FI_EAVAIL), st)
        \<and> entries st = map (hard_out K fmt) goods \<and> sticky st = e \<and> hwq st = rest
        \<and> slept st = []"
    using a v by (simp add: usdf_cq_sread_common_def read_result_def Let_def)
qed

lemma readable_prefix:
  assumes "list_all no_error held" "\<not> no_error bad" "length held < count"
  shows "readable count (held @ bad # others) = length held"
proof -
  have "takeWhile no_error (held @ bad # others) = held"
    using assms by (simp add: list_all_iff takeWhile_append2)
  then show ?thesis using assms by (simp add: readable_def)
qed

lemma pending_hd:
  assumes "ring_ok s" "pending s = bad # others"
  shows "ring_at s (cq_tail s) = bad"
proof -
  have "0 < ring_count (s\<lparr>cq_tail := cq_tail s\<rparr>)" using length_pending [OF assms(1)] assms(2) by simp
  moreover have "ring_ok (s\<lparr>cq_tail := cq_tail s\<rparr>)" using assms(1) by simp
  ultimately show ?thesis
    using step_pending [where s = s and t = "cq_tail s"] assms(2) by simp
qed

lemma soft_read_stops_at_error:
  "uc_status (cq_comp scq) = 0 \<and> valid_format fmt
     \<and> usdf_domain_progress udp (soft (c_union scq)) = (s, udp') \<and> ring_ok s
     \<and> pending s = held @ bad # others \<and> list_all no_error held \<and> \<not> no_error bad
     \<and> length held < count \<and> 0 < count'
   \<longrightarrow> (\<exists>scq'. usdf_cq_read_common_soft udp scq count fmt
              = (if held \<noteq> [] then Inr (length held) else Inl FI_EAVAIL, scq', udp',
                 map (soft_out fmt) held)
          \<and> ring_ok (soft (c_union scq')) \<and> pending (soft (c_union scq')) = bad # others
          \<and> (if held = [] then scq' = scq\<lparr>c_union := Soft s\<rparr> else True)
          \<and> fst (usdf_cq_read_common_soft [] scq' count' fmt) = Inl FI_EAVAIL
          \<and> fst (usdf_cq_readerr_soft (soft (c_union scq')) entry) = Inr 1
          \<and> err_op_context (snd (snd (usdf_cq_readerr_soft (soft (c_union scq')) entry)))
              = cse_context bad
          \<and> prov_errno (snd (snd (usdf_cq_readerr_soft (soft (c_union scq')) entry)))
              = cse_prov_errno bad)"
proof (intro impI)
  assume a: "uc_status (cq_comp scq) = 0 \<and> valid_format fmt
     \<and> usdf_domain_progress udp (soft (c_union scq)) = (s, udp') \<and> ring_ok s
     \<and> pending s = held @ bad # others \<and> list_all no_error held \<and> \<not> no_error bad
     \<and> length held < count \<and> 0 < count'"
  then have sst: "uc_status (cq_comp scq) = 0" and vf: "valid_format fmt"
    and sw: "usdf_domain_progress udp (soft (c_union scq)) = (s, udp')" and ok: "ring_ok s"
    and p: "pending s = held @ bad # others" and g: "list_all no_error held"
    and bad: "\<not> no_error bad" and c: "length held < count" and c': "0 < count'"
    by simp_all
  have m: "readable count (pending s) = length held"
    unfolding p by (rule readable_prefix [OF g bad c])
  from read_soft_char [OF sst vf sw ok, of count] obtain scq' where big:
    "usdf_cq_read_common_soft udp scq count fmt
           = (if 0 < readable count (pending s) then Inr (readable count (pending s))
              else if 0 < count \<and> pending s \<noteq> [] then Inl FI_EAVAIL else Inl FI_EAGAIN,
              scq', udp', map (soft_out fmt) (take (readable count (pending s)) (pending s)))
         \<and> ring_ok (soft (c_union scq'))
         \<and> pending (soft (c_union scq')) = drop (readable count (pending s)) (pending s)
         \<and> cq_list (soft (c_union scq')) = cq_list s
         \<and> cq_comp scq' = cq_comp scq \<and> cq_fid_ops scq' = cq_fid_ops scq
         \<and> (readable count (pending s) = 0 \<longrightarrow> scq' = scq\<lparr>c_union := Soft s\<rparr>)" ..
  note r = big [THEN conjunct1]
    and ok' = big [THEN conjunct2, THEN conjunct1]
    and p' = big [THEN conjunct2, THEN conjunct2, THEN conjunct1]
    and cmp = big [THEN conjunct2, THEN conjunct2, THEN conjunct2, THEN conjunct2, THEN conjunct1]
    and same = big [THEN conjunct2, THEN conjunct2, THEN conjunct2, THEN conjunct2,
                    THEN conjunct2, THEN conjunct2]
  have pe: "pending (soft (c_union scq')) = bad # others" using p' [unfolded m] by (simp add: p)
  have r1: "usdf_cq_read_common_soft udp scq count fmt
              = (if held \<noteq> [] then Inr (length held) else Inl FI_EAVAIL, scq', udp',
                 map (soft_out fmt) held)"
    using r [unfolded m] c by (simp add: p)
  have sst': "uc_status (cq_comp scq') = 0" using cmp sst by simp
  have sw': "usdf_domain_progress [] (soft (c_union scq')) = (soft (c_union scq'), [])" by simp
  have m': "readable count' (pending (soft (c_union scq'))) = 0"
    unfolding pe using readable_prefix [of "[]" bad count' others] bad c' by simp
  have ne: "pending (soft (c_union scq')) \<noteq> []" using pe by simp
  have r2: "fst (usdf_cq_read_common_soft [] scq' count' fmt) = Inl FI_EAVAIL"
    using read_soft_char [OF sst' vf sw' ok', of count', unfolded m'] c' ne by auto
  have at: "ring_at (soft (c_union scq')) (cq_tail (soft (c_union scq'))) = bad"
    by (rule pending_hd [OF ok' pe])
  show "\<exists>scq'. usdf_cq_read_common_soft udp scq count fmt
              = (if held \<noteq> [] then Inr (length held) else Inl FI_EAVAIL, scq', udp',
                 map (soft_out fmt) held)
          \<and> ring_ok (soft (c_union scq')) \<and> pending (soft (c_union scq')) = bad # others
          \<and> (if held = [] then scq' = scq\<lparr>c_union := Soft s\<rparr> else True)
          \<and> fst (usdf_cq_read_common_soft [] scq' count' fmt) = Inl FI_EAVAIL
          \<and> fst (usdf_cq_readerr_soft (soft (c_union scq')) entry) = Inr 1
          \<and> err_op_context (snd (snd (usdf_cq_readerr_soft (soft (c_union scq')) entry)))
              = cse_context bad
          \<and> prov_errno (snd (snd (usdf_cq_readerr_soft (soft (c_union scq')) entry)))
              = cse_prov_errno bad"
    apply (rule exI [of _ scq'])
    using r1 ok' pe r2 at same [unfolded m]
    by (simp add: usdf_cq_readerr_soft_def Let_def)
qed

lemma soft_sread_stops_at_error:
  "valid_format fmt \<and> out_entries sst = []
     \<and> usdf_domain_progress (domain sst) (soft_ring sst) = (s, udp') \<and> ring_ok s
     \<and> pending s = held @ bad # others \<and> list_all no_error held \<and> \<not> no_error bad
     \<and> length held < count
   \<longrightarrow> (\<exists>sst'. usdf_cq_sread_soft_loop (Suc n) K fmt count timeout_ms sst
              = (Some (if held \<noteq> [] then Inr (length held) else Inl FI_EAVAIL), sst')
          \<and> out_entries sst' = map (soft_out fmt) held \<and> domain sst' = udp'
          \<and> ring_ok (soft_ring sst') \<and> pending (soft_ring sst') = bad # others
          \<and> soft_slept sst' = soft_slept sst)"
proof (intro impI)
  assume a: "valid_format fmt \<and> out_entries sst = []
     \<and> usdf_domain_progress (domain sst) (soft_ring sst) = (s, udp') \<and> ring_ok s
     \<and> pending s = held @ bad # others \<and> list_all no_error held \<and> \<not> no_error bad
     \<and> length held < count"
  then have vf: "valid_format fmt" and o: "out_entries sst = []"
    and sw: "usdf_domain_progress (domain sst) (soft_ring sst) = (s, udp')" and ok: "ring_ok s"
    and p: "pending s = held @ bad # others" and g: "list_all no_error held"
    and bad: "\<not> no_error bad" and c: "length held < count"
    by simp_all
  have m: "readable count (pending s) = length held"
    unfolding p by (rule readable_prefix [OF g bad c])
  obtain x s' tail' out where run:
    "usdf_cq_soft_loop fmt count s (cq_tail s) [] = (x, s', tail', out)"
    by (metis prod_cases4)
  have ok0: "ring_ok (s\<lparr>cq_tail := cq_tail s\<rparr>)" using ok by simp
  note ch = soft_loop_char [OF ok0 vf run, simplified, unfolded m]
  have out: "out = map (soft_out fmt) held" using ch by (simp add: p)
  have pe: "pending (s'\<lparr>cq_tail := tail'\<rparr>) = bad # others" using ch by (simp add: p)
  have ok': "ring_ok (s'\<lparr>cq_tail := tail'\<rparr>)" using ch by simp
  show "\<exists>sst'. usdf_cq_sread_soft_loop (Suc n) K fmt count timeout_ms sst
              = (Some (if held \<noteq> [] then Inr (length held) else Inl FI_EAVAIL), sst')
          \<and> out_entries sst' = map (soft_out fmt) held \<and> domain sst' = udp'
          \<and> ring_ok (soft_ring sst') \<and> pending (soft_ring sst') = bad # others
          \<and> soft_slept sst' = soft_slept sst"
  proof (cases "held = []")
    case True
    then have x: "x = Returned (Inl FI_EAVAIL)" and same: "s' = s" "tail' = cq_tail s"
      using ch c bad by (auto simp: p)
    show ?thesis
      apply (rule exI [of _ "sst\<lparr>soft_ring := s', domain := udp', out_entries := out\<rparr>"])
      using sw o run x out True pe ok' same by simp
  next
    case False
    then have x: "x = Fell_out" using ch g by (cases held) (auto simp: p)
    show ?thesis
      apply (rule exI [of _ "sst\<lparr>soft_ring := s'\<lparr>cq_tail := tail'\<rparr>, domain := udp',
                                 out_entries := out\<rparr>"])
      using sw o run x out False pe ok' by simp
  qed
qed


text \<open>
  Claim C4. A read that has collected \<open>K > 0\<close> entries when it meets a completion marked
  as an error stops and returns \<open>K\<close>, with exactly those entries in the buffer; a read
  that meets the error first returns \<^verbatim>\<open>-FI_EAVAIL\<close>. The error stays where a later
  call finds it: in hard mode in the queue's completion slot, so that the next read
  returns \<^verbatim>\<open>-FI_EAVAIL\<close> and the error read returns it; in soft mode at the tail of
  the ring, so that the next read returns \<^verbatim>\<open>-FI_EAVAIL\<close> and the error read hands out
  its context and error code. The six conjuncts are: the hard read; the loop of the
  blocking hard read in any state it can be in (whatever was collected, slept and spent
  so far); the blocking hard read from its start; the soft read; one round of the loop
  of the blocking soft read in any state; the blocking soft read from its start.
\<close>

theorem read_returns_entries_before_error:
  "(uc_status (cq_comp cq) = 0 \<and> valid_format fmt \<and> list_all (\<lambda>g. uc_status g = 0) goods
     \<and> uc_status e \<noteq> 0 \<and> length goods < count
   \<longrightarrow> usdf_cq_read_common K cq (map Some goods @ Some e # rest) count fmt
        = (if goods \<noteq> [] then Inr (length goods) else Inl FI_EAVAIL,
           cq\<lparr>cq_comp := e\<rparr>, rest, map (hard_out K fmt) goods)
     \<and> usdf_cq_read_common K (cq\<lparr>cq_comp := e\<rparr>) rest count' fmt'
        = (Inl FI_EAVAIL, cq\<lparr>cq_comp := e\<rparr>, rest, [])
     \<and> fst (usdf_cq_readerr (cq\<lparr>cq_comp := e\<rparr>) entry) = Inr 1
     \<and> err_op_context (snd (snd (usdf_cq_readerr (cq\<lparr>cq_comp := e\<rparr>) entry))) = uc_context e)
 \<and> (valid_format fmt \<and> list_all (\<lambda>g. uc_status g = 0) goods \<and> uc_status e \<noteq> 0
     \<and> length (entries st) + length goods < count
     \<and> hwq st = map Some goods @ Some e # rest \<and> length goods < fuel
   \<longrightarrow> usdf_cq_sread_loop fuel K fmt count timeout_ms st
        = (Some (if entries st @ map (hard_out K fmt) goods \<noteq> []
                 then Inr (length (entries st) + length goods) else Inl FI_EAVAIL),
           st\<lparr>entries := entries st @ map (hard_out K fmt) goods, sticky := e, hwq := rest\<rparr>))
 \<and> (uc_status (cq_comp cq) = 0 \<and> valid_format fmt \<and> list_all (\<lambda>g. uc_status g = 0) goods
     \<and> uc_status e \<noteq> 0 \<and> length goods < count \<and> length goods < fuel
   \<longrightarrow> (\<exists>st. usdf_cq_sread_common fuel K cq (map Some goods @ Some e # rest) count timeout_ms fmt
           = (Some (if goods \<noteq> [] then Inr (length goods) else Inl FI_EAVAIL), st)
        \<and> entries st = map (hard_out K fmt) goods \<and> sticky st = e \<and> hwq st = rest
        \<and> slept st = []))
 \<and> (uc_status (cq_comp scq) = 0 \<and> valid_format fmt
     \<and> usdf_domain_progress udp (soft (c_union scq)) = (s, udp') \<and> ring_ok s
     \<and> pending s = held @ bad # others \<and> list_all no_error held \<and> \<not> no_error bad
     \<and> length held < count \<and> 0 < count'
   \<longrightarrow> (\<exists>scq'. usdf_cq_read_common_soft udp scq count fmt
              = (if held \<noteq> [] then Inr (length held) else Inl FI_EAVAIL, scq', udp',
                 map (soft_out fmt) held)
          \<and> ring_ok (soft (c_union scq')) \<and> pending (soft (c_union scq')) = bad # others
          \<and> (if held = [] then scq' = scq\<lparr>c_union := Soft s\<rparr> else True)
          \<and> fst (usdf_cq_read_common_soft [] scq' count' fmt) = Inl FI_EAVAIL
          \<and> fst (usdf_cq_readerr_soft (soft (c_union scq')) entry) = Inr 1
          \<and> err_op_context (snd (snd (usdf_cq_readerr_soft (soft (c_union scq')) entry)))
              = cse_context bad
          \<and> prov_errno (snd (snd (usdf_cq_readerr_soft (soft (c_union scq')) entry)))
              = cse_prov_errno bad))
 \<and> (valid_format fmt \<and> out_entries sst = []
     \<and> usdf_domain_progress (domain sst) (soft_ring sst) = (s, udp') \<and> ring_ok s
     \<and> pending s = held @ bad # others \<and> list_all no_error held \<and> \<not> no_error bad
     \<and> length held < count
   \<longrightarrow> (\<exists>sst'. usdf_cq_sread_soft_loop (Suc n) K fmt count timeout_ms sst
              = (Some (if held \<noteq> [] then Inr (length held) else Inl FI_EAVAIL), sst')
          \<and> out_entries sst' = map (soft_out fmt) held \<and> domain sst' = udp'
          \<and> ring_ok (soft_ring sst') \<and> pending (soft_ring sst') = bad # others
          \<and> soft_slept sst' = soft_slept sst))
 \<and> (valid_format fmt
     \<and> usdf_domain_progress udp (soft (c_union scq)) = (s, udp') \<and> ring_ok s
     \<and> pending s = held @ bad # others \<and> list_all no_error held \<and> \<not> no_error bad
     \<and> length held < count
   \<longrightarrow> (\<exists>sst'. usdf_cq_sread_common_soft (Suc n) K udp scq count timeout_ms fmt
              = (Some (if held \<noteq> [] then Inr (length held) else Inl FI_EAVAIL), sst')
          \<and> out_entries sst' = map (soft_out fmt) held \<and> domain sst' = udp'
          \<and> ring_ok (soft_ring sst') \<and> pending (soft_ring sst') = bad # others
          \<and> soft_slept sst' = []))"
proof (intro conjI)
  show "valid_format fmt
     \<and> usdf_domain_progress udp (soft (c_union scq)) = (s, udp') \<and> ring_ok s
     \<and> pending s = held @ bad # others \<and> list_all no_error held \<and> \<not> no_error bad
     \<and> length held < count
   \<longrightarrow> (\<exists>sst'. usdf_cq_sread_common_soft (Suc n) K udp scq count timeout_ms fmt
              = (Some (if held \<noteq> [] then Inr (length held) else Inl FI_EAVAIL), sst')
          \<and> out_entries sst' = map (soft_out fmt) held \<and> domain sst' = udp'
          \<and> ring_ok (soft_ring sst') \<and> pending (soft_ring sst') = bad # others
          \<and> soft_slept sst' = [])"
    using soft_sread_stops_at_error
      [where sst = "\<lparr>soft_ring = soft (c_union scq), domain = udp, out_entries = [],
                soft_sleep_time_us = SREAD_INIT_SLEEP_TIME_US K, soft_time_spent_us = 0,
                soft_slept = []\<rparr>" and fmt = fmt and s = s and udp' = udp' and held = held
          and bad = bad and others = others and count = count and n = n and K = K
          and timeout_ms = timeout_ms]
    by (simp add: usdf_cq_sread_common_soft_def valid_format_def Let_def)
qed (rule hard_read_stops_at_error hard_sread_stops_at_error hard_sread_common_stops_at_error
      soft_read_stops_at_error soft_sread_stops_at_error)+

lemma ring_two_then_error:
  "pending ring_two_then_error = [soft_entry0 1 10 0, soft_entry0 2 20 0] @ soft_entry0 3 0 5 # []"
  "ring_ok ring_two_then_error"
  by code_simp+

text \<open>
  Two good completions and then one with an error status, for a count of 8; the same
  with the error first; and the ring \<open>ring_two_then_error\<close>.
\<close>

theorem read_returns_entries_before_error_witness:
  "usdf_cq_read_common consts0 hard_cq0
      [Some (comp_recv 1 100 0), Some (comp_recv 2 100 0), Some (comp_recv 3 100 1)] 8
      FI_CQ_FORMAT_CONTEXT
     = (Inr 2, hard_cq0\<lparr>cq_comp := comp_recv 3 100 1\<rparr>, [],
        [Out_context \<lparr>op_context = 1\<rparr>, Out_context \<lparr>op_context = 2\<rparr>])
   \<and> usdf_cq_read_common consts0 hard_cq0 [Some (comp_recv 3 100 1)] 8 FI_CQ_FORMAT_CONTEXT
     = (Inl FI_EAVAIL, hard_cq0\<lparr>cq_comp := comp_recv 3 100 1\<rparr>, [], [])
   \<and> (\<exists>st. usdf_cq_sread_common 3 consts0 hard_cq0
               [Some (comp_recv 1 100 0), Some (comp_recv 2 100 0), Some (comp_recv 3 100 1)] 8
               (- 1) FI_CQ_FORMAT_CONTEXT = (Some (Inr 2), st)
          \<and> sticky st = comp_recv 3 100 1 \<and> slept st = [])
   \<and> (\<exists>scq'. usdf_cq_read_common_soft [] (soft_cq0 ring_two_then_error) 8 FI_CQ_FORMAT_CONTEXT
              = (Inr 2, scq', [], [Out_context \<lparr>op_context = 1\<rparr>, Out_context \<lparr>op_context = 2\<rparr>])
          \<and> pending (soft (c_union scq')) = [soft_entry0 3 0 5]
          \<and> fst (usdf_cq_read_common_soft [] scq' 1 FI_CQ_FORMAT_CONTEXT) = Inl FI_EAVAIL
          \<and> prov_errno (snd (snd (usdf_cq_readerr_soft (soft (c_union scq')) err_entry0))) = 5)
   \<and> (\<exists>sst'. usdf_cq_sread_common_soft 1 consts0 [] (soft_cq0 ring_two_then_error) 8 0
               FI_CQ_FORMAT_CONTEXT = (Some (Inr 2), sst')
          \<and> pending (soft_ring sst') = [soft_entry0 3 0 5] \<and> soft_slept sst' = [])"
proof -
  note T = read_returns_entries_before_error
  let ?g = "[comp_recv 1 100 0, comp_recv 2 100 0]" and ?e = "comp_recv 3 100 1"
  have vf: "valid_format FI_CQ_FORMAT_CONTEXT" by (simp add: valid_format_def)
  have h1: "uc_status (cq_comp hard_cq0) = 0 \<and> valid_format FI_CQ_FORMAT_CONTEXT
      \<and> list_all (\<lambda>g. uc_status g = 0) ?g \<and> uc_status ?e \<noteq> 0 \<and> length ?g < 8"
    by (simp add: vf hard_cq0_def comp0_def comp_recv_def)
  have h1': "uc_status (cq_comp hard_cq0) = 0 \<and> valid_format FI_CQ_FORMAT_CONTEXT
      \<and> list_all (\<lambda>g. uc_status g = 0) [] \<and> uc_status ?e \<noteq> 0 \<and> length ([] :: usd_completion list) < 8"
    by (simp add: vf hard_cq0_def comp0_def comp_recv_def)
  have w1: "usdf_cq_read_common consts0 hard_cq0 (map Some ?g @ Some ?e # []) 8 FI_CQ_FORMAT_CONTEXT
        = (if ?g \<noteq> [] then Inr (length ?g) else Inl FI_EAVAIL,
           hard_cq0\<lparr>cq_comp := ?e\<rparr>, [], map (hard_out consts0 FI_CQ_FORMAT_CONTEXT) ?g)"
    by (rule T [THEN conjunct1, THEN mp, OF h1, THEN conjunct1])
  have w2: "usdf_cq_read_common consts0 hard_cq0 (map Some [] @ Some ?e # []) 8 FI_CQ_FORMAT_CONTEXT
        = (if ([] :: usd_completion list) \<noteq> [] then Inr (length ([] :: usd_completion list)) else Inl FI_EAVAIL,
           hard_cq0\<lparr>cq_comp := ?e\<rparr>, [], map (hard_out consts0 FI_CQ_FORMAT_CONTEXT) [])"
    by (rule T [THEN conjunct1, THEN mp, OF h1', THEN conjunct1])
  have h3: "uc_status (cq_comp hard_cq0) = 0 \<and> valid_format FI_CQ_FORMAT_CONTEXT
      \<and> list_all (\<lambda>g. uc_status g = 0) ?g \<and> uc_status ?e \<noteq> 0 \<and> length ?g < 8
      \<and> length ?g < 3"
    using h1 by simp
  have w3: "\<exists>st. usdf_cq_sread_common 3 consts0 hard_cq0 (map Some ?g @ Some ?e # []) 8 (- 1)
               FI_CQ_FORMAT_CONTEXT
           = (Some (if ?g \<noteq> [] then Inr (length ?g) else Inl FI_EAVAIL), st)
        \<and> entries st = map (hard_out consts0 FI_CQ_FORMAT_CONTEXT) ?g \<and> sticky st = ?e
        \<and> hwq st = [] \<and> slept st = []"
    by (rule T [THEN conjunct2, THEN conjunct2, THEN conjunct1, THEN mp, OF h3])
  let ?h = "[soft_entry0 1 10 0, soft_entry0 2 20 0]" and ?b = "soft_entry0 3 0 5"
  have h4: "uc_status (cq_comp (soft_cq0 ring_two_then_error)) = 0
     \<and> valid_format FI_CQ_FORMAT_CONTEXT
     \<and> usdf_domain_progress [] (soft (c_union (soft_cq0 ring_two_then_error)))
         = (ring_two_then_error, [])
     \<and> ring_ok ring_two_then_error
     \<and> pending ring_two_then_error = ?h @ ?b # [] \<and> list_all no_error ?h \<and> \<not> no_error ?b
     \<and> length ?h < 8 \<and> 0 < (1::nat)"
    using ring_two_then_error
    by (simp add: vf soft_cq0_def comp0_def no_error_def soft_entry0_def zero_soft_entry_def)
  have w4: "\<exists>scq'. usdf_cq_read_common_soft [] (soft_cq0 ring_two_then_error) 8 FI_CQ_FORMAT_CONTEXT
              = (if ?h \<noteq> [] then Inr (length ?h) else Inl FI_EAVAIL, scq', [],
                 map (soft_out FI_CQ_FORMAT_CONTEXT) ?h)
          \<and> ring_ok (soft (c_union scq')) \<and> pending (soft (c_union scq')) = ?b # []
          \<and> (if ?h = [] then scq' = (soft_cq0 ring_two_then_error)\<lparr>c_union := Soft ring_two_then_error\<rparr> else True)
          \<and> fst (usdf_cq_read_common_soft [] scq' 1 FI_CQ_FORMAT_CONTEXT) = Inl FI_EAVAIL
          \<and> fst (usdf_cq_readerr_soft (soft (c_union scq')) err_entry0) = Inr 1
          \<and> err_op_context (snd (snd (usdf_cq_readerr_soft (soft (c_union scq')) err_entry0)))
              = cse_context ?b
          \<and> prov_errno (snd (snd (usdf_cq_readerr_soft (soft (c_union scq')) err_entry0)))
              = cse_prov_errno ?b"
    by (rule T [THEN conjunct2, THEN conjunct2, THEN conjunct2, THEN conjunct1, THEN mp, OF h4])
  have h6: "valid_format FI_CQ_FORMAT_CONTEXT
     \<and> usdf_domain_progress [] (soft (c_union (soft_cq0 ring_two_then_error)))
         = (ring_two_then_error, [])
     \<and> ring_ok ring_two_then_error
     \<and> pending ring_two_then_error = ?h @ ?b # [] \<and> list_all no_error ?h \<and> \<not> no_error ?b
     \<and> length ?h < 8"
    using h4 by simp
  have w6: "\<exists>sst'. usdf_cq_sread_common_soft (Suc 0) consts0 [] (soft_cq0 ring_two_then_error) 8 0
               FI_CQ_FORMAT_CONTEXT
              = (Some (if ?h \<noteq> [] then Inr (length ?h) else Inl FI_EAVAIL), sst')
          \<and> out_entries sst' = map (soft_out FI_CQ_FORMAT_CONTEXT) ?h \<and> domain sst' = []
          \<and> ring_ok (soft_ring sst') \<and> pending (soft_ring sst') = ?b # []
          \<and> soft_slept sst' = []"
    by (rule T [THEN conjunct2, THEN conjunct2, THEN conjunct2, THEN conjunct2, THEN conjunct2,
                THEN mp, OF h6])
  have o: "hard_out consts0 FI_CQ_FORMAT_CONTEXT (comp_recv c n st) = Out_context \<lparr>op_context = c\<rparr>"
          "soft_out FI_CQ_FORMAT_CONTEXT (soft_entry0 c l p) = Out_context \<lparr>op_context = c\<rparr>"
    for c n st l p
    by (simp_all add: hard_out_def soft_out_def usdf_cq_copy_cq_entry_def
        usdf_cq_copy_soft_entry_def comp_recv_def soft_entry0_def zero_soft_entry_def)
  have sel: "cse_context (soft_entry0 c l p) = c" "cse_prov_errno (soft_entry0 c l p) = p"
    for c l p
    by (simp_all add: soft_entry0_def zero_soft_entry_def)
  show ?thesis
    using w1 w2 w3 w4 w6
    by (auto simp: o sel numeral_2_eq_2)
qed

subsection \<open>Blocking reads\<close>

lemma deadline_zero: "deadline_passed 0 t"
  by (simp add: deadline_passed_def int32_wrap_def to_size_t_def)

lemma deadline_negative: "timeout_ms < 0 \<Longrightarrow> \<not> deadline_passed timeout_ms t"
  by (simp add: deadline_passed_def)

lemma copy_hard_not_eagain: "usdf_cq_copy_cq_entry K c fmt \<noteq> Inl FI_EAGAIN"
  by (cases fmt) (simp_all add: usdf_cq_copy_cq_entry_def)

lemma sread_common_unfold:
  "uc_status (cq_comp cq) = 0 \<Longrightarrow> valid_format fmt \<Longrightarrow>
   usdf_cq_sread_common fuel K cq hw count timeout_ms fmt
     = usdf_cq_sread_loop fuel K fmt count timeout_ms
         \<lparr>entries = [], sticky = cq_comp cq, hwq = hw,
          sleep_time_us = SREAD_INIT_SLEEP_TIME_US K, time_spent_us = 0, slept = []\<rparr>"
  by (auto simp: usdf_cq_sread_common_def valid_format_def Let_def)

lemma hard_sread_timeout_zero:
  "uc_status (cq_comp cq) = 0 \<and> valid_format fmt \<and> fst (usd_poll_cq hw) = None
   \<longrightarrow> fst (usdf_cq_sread_common (Suc n) K cq hw count 0 fmt) = Some (Inl FI_EAGAIN)
     \<and> slept (snd (usdf_cq_sread_common (Suc n) K cq hw count 0 fmt)) = []"
proof (intro impI)
  assume a: "uc_status (cq_comp cq) = 0 \<and> valid_format fmt \<and> fst (usd_poll_cq hw) = None"
  obtain r hw' where p: "usd_poll_cq hw = (r, hw')" by (cases "usd_poll_cq hw")
  with a have "r = None" by simp
  then show "fst (usdf_cq_sread_common (Suc n) K cq hw count 0 fmt) = Some (Inl FI_EAGAIN)
     \<and> slept (snd (usdf_cq_sread_common (Suc n) K cq hw count 0 fmt)) = []"
    using a p by (simp add: sread_common_unfold deadline_zero read_result_def)
qed

lemma sread_loop_negative:
  "timeout_ms < 0 \<Longrightarrow> entries st \<noteq> [] \<or> 0 < count \<Longrightarrow>
     fst (usdf_cq_sread_loop fuel K fmt count timeout_ms st) \<noteq> Some (Inl FI_EAGAIN)"
proof (induction fuel arbitrary: st)
  case 0
  then show ?case by (auto simp: read_result_def)
next
  case (Suc n)
  obtain r hw' where p: "usd_poll_cq (hwq st) = (r, hw')" by (cases "usd_poll_cq (hwq st)")
  show ?case
  proof (cases "length (entries st) < count")
    case False
    then show ?thesis using Suc.prems by (auto simp: read_result_def)
  next
    case True
    show ?thesis
    proof (cases r)
      case None
      show ?thesis
      proof (cases "entries st = []")
        case e: True
        have "fst (usdf_cq_sread_loop n K fmt count timeout_ms (do_sleep K (st\<lparr>hwq := hw'\<rparr>)))
              \<noteq> Some (Inl FI_EAGAIN)"
          using Suc.prems True by (intro Suc.IH) simp_all
        then show ?thesis using True p None e deadline_negative [OF Suc.prems(1)] by simp
      next
        case False
        then show ?thesis using True p None by simp
      qed
    next
      case (Some c)
      show ?thesis
      proof (cases "uc_status c \<noteq> 0")
        case True
        then show ?thesis using \<open>length (entries st) < count\<close> p Some by simp
      next
        case ok: False
        show ?thesis
        proof (cases "usdf_cq_copy_cq_entry K c fmt")
          case (Inl e)
          then have "e \<noteq> FI_EAGAIN" using copy_hard_not_eagain [of K c fmt] by auto
          then show ?thesis using True p Some ok Inl by simp
        next
          case (Inr ent)
          have "fst (usdf_cq_sread_loop n K fmt count timeout_ms
                  (st\<lparr>sticky := c, hwq := hw', entries := entries st @ [ent]\<rparr>))
                \<noteq> Some (Inl FI_EAGAIN)"
            using Suc.prems by (intro Suc.IH) simp_all
          then show ?thesis using True p Some ok Inr by simp
        qed
      qed
    qed
  qed
qed

lemma sread_loop_waits:
  "timeout_ms < 0 \<Longrightarrow> entries st = [] \<Longrightarrow> 0 < count \<Longrightarrow> list_all (\<lambda>r. r = None) (hwq st)
   \<Longrightarrow> fst (usdf_cq_sread_loop fuel K fmt count timeout_ms st) = None
     \<and> length (slept (snd (usdf_cq_sread_loop fuel K fmt count timeout_ms st)))
         = length (slept st) + fuel"
proof (induction fuel arbitrary: st)
  case 0
  then show ?case by simp
next
  case (Suc n)
  obtain r hw' where p: "usd_poll_cq (hwq st) = (r, hw')" by (cases "usd_poll_cq (hwq st)")
  have r: "r = None" and hw': "list_all (\<lambda>r. r = None) hw'"
    using p Suc.prems(4) by (cases "hwq st"; auto)+
  let ?st = "do_sleep K (st\<lparr>hwq := hw'\<rparr>)"
  have "fst (usdf_cq_sread_loop n K fmt count timeout_ms ?st) = None
     \<and> length (slept (snd (usdf_cq_sread_loop n K fmt count timeout_ms ?st)))
         = length (slept ?st) + n"
    using Suc.prems hw' by (intro Suc.IH) (simp_all add: do_sleep_def)
  then show ?case
    using Suc.prems p r deadline_negative [OF Suc.prems(1)] by (simp add: do_sleep_def)
qed

lemma next_sleep_le: "next_sleep_time K q \<le> SREAD_MAX_SLEEP_TIME_US K"
  by (simp add: next_sleep_time_def)

lemma next_sleep_mult:
  "q < SREAD_MAX_SLEEP_TIME_US K \<Longrightarrow> q * SREAD_EXP_BASE K \<le> SREAD_MAX_SLEEP_TIME_US K
     \<Longrightarrow> SREAD_MAX_SLEEP_TIME_US K < 2 ^ 64 \<Longrightarrow> next_sleep_time K q = q * SREAD_EXP_BASE K"
  by (simp add: next_sleep_time_def)

lemma backoff_seq_simps:
  "backoff_seq K 0 = SREAD_INIT_SLEEP_TIME_US K"
  "backoff_seq K (Suc i) = next_sleep_time K (backoff_seq K i)"
  by (simp_all add: backoff_seq_def)

lemma next_sleep_cap_stays:
  "SREAD_MAX_SLEEP_TIME_US K \<le> q \<Longrightarrow> next_sleep_time K q = SREAD_MAX_SLEEP_TIME_US K"
  by (simp add: next_sleep_time_def)

lemma next_sleep_cap_exact:
  "q < SREAD_MAX_SLEEP_TIME_US K \<Longrightarrow> SREAD_MAX_SLEEP_TIME_US K \<le> q * SREAD_EXP_BASE K
     \<Longrightarrow> q * SREAD_EXP_BASE K < 2 ^ 64 \<Longrightarrow> next_sleep_time K q = SREAD_MAX_SLEEP_TIME_US K"
  by (simp add: next_sleep_time_def)

lemma next_sleep_exact:
  "q * SREAD_EXP_BASE K < 2 ^ 64 \<Longrightarrow>
     next_sleep_time K q
       = (if q < SREAD_MAX_SLEEP_TIME_US K
          then min (q * SREAD_EXP_BASE K) (SREAD_MAX_SLEEP_TIME_US K)
          else SREAD_MAX_SLEEP_TIME_US K)"
  by (simp add: next_sleep_time_def)

lemma backoff_seq_stays:
  "backoff_seq K i = SREAD_MAX_SLEEP_TIME_US K
     \<Longrightarrow> backoff_seq K (i + j) = SREAD_MAX_SLEEP_TIME_US K"
  by (induction j) (simp_all add: backoff_seq_simps next_sleep_cap_stays)

text \<open>
  The schedule in closed form, where the base is not 0, the initial value is within
  the maximum and the product with the base does not wrap: the \<open>i\<close>-th quantum is the
  initial value times the \<open>i\<close>-th power of the base, cut off at the maximum.
\<close>

lemma backoff_seq_closed:
  assumes b: "1 \<le> SREAD_EXP_BASE K"
    and i0: "SREAD_INIT_SLEEP_TIME_US K \<le> SREAD_MAX_SLEEP_TIME_US K"
    and nowrap: "SREAD_MAX_SLEEP_TIME_US K * SREAD_EXP_BASE K < 2 ^ 64"
  shows "backoff_seq K i
           = min (SREAD_INIT_SLEEP_TIME_US K * SREAD_EXP_BASE K ^ i) (SREAD_MAX_SLEEP_TIME_US K)"
proof (induction i)
  case 0
  show ?case using i0 by (simp add: backoff_seq_simps)
next
  case (Suc i)
  let ?q = "SREAD_INIT_SLEEP_TIME_US K * SREAD_EXP_BASE K ^ i"
  let ?M = "SREAD_MAX_SLEEP_TIME_US K" and ?B = "SREAD_EXP_BASE K"
  show ?case
  proof (cases "?q < ?M")
    case True
    then have q: "backoff_seq K i = ?q" using Suc.IH by simp
    have "?q * ?B \<le> ?M * ?B" by (rule mult_le_mono1) (use True in simp)
    then have "?q * ?B < 2 ^ 64" using nowrap by (rule le_less_trans)
    then have "next_sleep_time K ?q = min (?q * ?B) ?M"
      using True by (simp add: next_sleep_exact)
    then show ?thesis by (simp add: backoff_seq_simps q mult_ac)
  next
    case False
    then have q: "backoff_seq K i = ?M" using Suc.IH by simp
    have "?q * 1 \<le> ?q * ?B" using b by (rule mult_le_mono2)
    then have "?M \<le> ?q * ?B" using False by linarith
    then show ?thesis
      by (simp add: backoff_seq_simps q next_sleep_cap_stays mult_ac)
  qed
qed

lemma backoff_seq_le:
  "SREAD_INIT_SLEEP_TIME_US K \<le> SREAD_MAX_SLEEP_TIME_US K
     \<Longrightarrow> backoff_seq K i \<le> SREAD_MAX_SLEEP_TIME_US K"
  by (cases i) (simp_all add: backoff_seq_simps next_sleep_le)

lemma backoff_inv_init: "backoff_inv K (SREAD_INIT_SLEEP_TIME_US K) []"
  by (simp add: backoff_inv_def backoff_seq_simps)

lemma backoff_inv_step: "backoff_inv K q sl \<Longrightarrow> backoff_inv K (next_sleep_time K q) (sl @ [q])"
  by (auto simp: backoff_inv_def backoff_seq_simps)

lemma sread_loop_backoff:
  "backoff_inv K (sleep_time_us st) (slept st) \<Longrightarrow>
     backoff_inv K (sleep_time_us (snd (usdf_cq_sread_loop fuel K fmt count timeout_ms st)))
                   (slept (snd (usdf_cq_sread_loop fuel K fmt count timeout_ms st)))"
proof (induction fuel arbitrary: st)
  case 0
  then show ?case by simp
next
  case (Suc n)
  obtain r hw' where p: "usd_poll_cq (hwq st) = (r, hw')" by (cases "usd_poll_cq (hwq st)")
  have sl: "backoff_inv K (sleep_time_us (snd (usdf_cq_sread_loop n K fmt count timeout_ms
                (do_sleep K (st\<lparr>hwq := hw'\<rparr>)))))
              (slept (snd (usdf_cq_sread_loop n K fmt count timeout_ms
                (do_sleep K (st\<lparr>hwq := hw'\<rparr>)))))"
    using backoff_inv_step [OF Suc.prems] by (intro Suc.IH) (simp add: do_sleep_def)
  have en: "backoff_inv K (sleep_time_us (snd (usdf_cq_sread_loop n K fmt count timeout_ms
                (st\<lparr>sticky := c, hwq := hw', entries := entries st @ [ent]\<rparr>))))
              (slept (snd (usdf_cq_sread_loop n K fmt count timeout_ms
                (st\<lparr>sticky := c, hwq := hw', entries := entries st @ [ent]\<rparr>))))" for c ent
    using Suc.prems by (intro Suc.IH) simp
  show ?case
    using Suc.prems p sl en
    by (cases r; cases "usdf_cq_copy_cq_entry K (the r) fmt") (auto simp: Let_def)
qed

lemma sread_loop_after_entry:
  "valid_format fmt \<Longrightarrow> entries st \<noteq> [] \<Longrightarrow> length (hwq st) < fuel \<Longrightarrow>
     \<exists>k st'. usdf_cq_sread_loop fuel K fmt count timeout_ms st = (Some (Inr k), st')
        \<and> 0 < k \<and> k = length (entries st')
        \<and> slept st' = slept st \<and> time_spent_us st' = time_spent_us st"
proof (induction "hwq st" arbitrary: st fuel)
  case Nil
  then obtain n where f: "fuel = Suc n" by (cases fuel) auto
  show ?case using Nil f by (auto simp: read_result_def)
next
  case (Cons r hw)
  then obtain n where f: "fuel = Suc n" by (cases fuel) auto
  have hw: "hwq st = r # hw" using Cons.hyps(2) by simp
  show ?case
  proof (cases "length (entries st) < count")
    case False
    then show ?thesis using Cons.prems f by (auto simp: read_result_def)
  next
    case True
    show ?thesis
    proof (cases r)
      case None
      then show ?thesis using True hw f Cons.prems by simp
    next
      case (Some c)
      show ?thesis
      proof (cases "uc_status c \<noteq> 0")
        case True
        then show ?thesis using \<open>length (entries st) < count\<close> hw f Some Cons.prems by simp
      next
        case False
        let ?st = "st\<lparr>sticky := c, hwq := hw, entries := entries st @ [hard_out K fmt c]\<rparr>"
        have "\<exists>k st'. usdf_cq_sread_loop n K fmt count timeout_ms ?st = (Some (Inr k), st')
                \<and> 0 < k \<and> k = length (entries st')
                \<and> slept st' = slept ?st \<and> time_spent_us st' = time_spent_us ?st"
          using Cons.prems f hw by (intro Cons.hyps(1)) simp_all
        then show ?thesis
          using True hw f Some False copy_hard_valid [OF Cons.prems(1), of K c] by simp
      qed
    qed
  qed
qed

lemma sread_loop_wait_bound:
  "valid_format fmt \<Longrightarrow> entries st = [] \<Longrightarrow> 0 < count
     \<Longrightarrow> hwq st = replicate w None @ Some c # rest \<Longrightarrow> w + length rest + 1 < fuel \<Longrightarrow>
     \<exists>r st'. usdf_cq_sread_loop fuel K fmt count timeout_ms st = (Some r, st')
        \<and> length (slept st') \<le> length (slept st) + w"
proof (induction w arbitrary: st fuel)
  case 0
  then obtain n where f: "fuel = Suc n" by (cases fuel) auto
  have hw: "hwq st = Some c # rest" using 0 by simp
  show ?case
  proof (cases "uc_status c \<noteq> 0")
    case True
    then show ?thesis using 0 f hw by simp
  next
    case False
    let ?st = "st\<lparr>sticky := c, hwq := rest, entries := entries st @ [hard_out K fmt c]\<rparr>"
    have "\<exists>k st'. usdf_cq_sread_loop n K fmt count timeout_ms ?st = (Some (Inr k), st')
            \<and> 0 < k \<and> k = length (entries st')
            \<and> slept st' = slept ?st \<and> time_spent_us st' = time_spent_us ?st"
      using 0 f by (intro sread_loop_after_entry) simp_all
    then show ?thesis
      using 0 f hw False copy_hard_valid [OF "0.prems"(1), of K c] by auto
  qed
next
  case (Suc w)
  then obtain n where f: "fuel = Suc n" by (cases fuel) auto
  have hw: "hwq st = None # (replicate w None @ Some c # rest)" using Suc.prems by simp
  show ?case
  proof (cases "deadline_passed timeout_ms (time_spent_us st)")
    case True
    then show ?thesis using Suc.prems f hw by simp
  next
    case False
    let ?st = "do_sleep K (st\<lparr>hwq := replicate w None @ Some c # rest\<rparr>)"
    have "\<exists>r st'. usdf_cq_sread_loop n K fmt count timeout_ms ?st = (Some r, st')
            \<and> length (slept st') \<le> length (slept ?st) + w"
      using Suc.prems f by (intro Suc.IH) (simp_all add: do_sleep_def)
    then show ?thesis
      using Suc.prems f hw False by (auto simp: do_sleep_def)
  qed
qed

lemma soft_loop_returned:
  "usdf_cq_soft_loop fmt count s tail acc = (Returned r, s', tail', out)
     \<Longrightarrow> r = Inl FI_EAVAIL \<or> r = Inl FI_EOPNOTSUPP"
proof (induction fmt count s tail acc rule: usdf_cq_soft_loop.induct)
  case (1 fmt count s tail acc)
  note run = "1.prems" [unfolded usdf_cq_soft_loop.simps [of fmt count s tail acc]]
  show ?case
  proof (cases "usdf_cq_copy_soft_entry (ring_at s tail) fmt")
    case (Inl e)
    then have "e = FI_EOPNOTSUPP"
      by (cases fmt) (simp_all add: usdf_cq_copy_soft_entry_def)
    then show ?thesis using run Inl by (auto split: if_splits)
  next
    case (Inr ent)
    show ?thesis
    proof (cases "length acc < count \<and> \<not> (tail = cq_head s \<and> cq_last_op s = USDF_SOFT_CQ_READ)
                   \<and> \<not> cse_prov_errno (ring_at s tail) > 0")
      case True
      then show ?thesis using run Inr "1.IH" [of ent] by auto
    next
      case False
      then show ?thesis using run by (auto split: if_splits)
    qed
  qed
qed

lemma soft_loop_empty:
  "tail = cq_head s \<and> cq_last_op s = USDF_SOFT_CQ_READ \<or> count \<le> length acc
     \<Longrightarrow> usdf_cq_soft_loop fmt count s tail acc = (Fell_out, s, tail, acc)"
  by (auto simp: usdf_cq_soft_loop.simps [of fmt count s tail acc])

lemma soft_sread_negative:
  "timeout_ms < 0 \<Longrightarrow>
     fst (usdf_cq_sread_soft_loop fuel K fmt count timeout_ms st) \<noteq> Some (Inl FI_EAGAIN)"
proof (induction fuel arbitrary: st)
  case 0
  then show ?case by simp
next
  case (Suc n)
  obtain s udp' where sw: "usdf_domain_progress (domain st) (soft_ring st) = (s, udp')"
    by (cases "usdf_domain_progress (domain st) (soft_ring st)")
  obtain x s' tail' out where run:
    "usdf_cq_soft_loop fmt count s (cq_tail s) (out_entries st) = (x, s', tail', out)"
    by (metis prod_cases4)
  show ?case
  proof (cases x)
    case Fell_out
    show ?thesis
      using sw run Fell_out deadline_negative [OF Suc.prems] Suc.IH [OF Suc.prems]
      by simp
  next
    case (Returned r)
    then have "r \<noteq> Inl FI_EAGAIN" using soft_loop_returned [of fmt count s "cq_tail s" "out_entries st" r s' tail' out] run by auto
    then show ?thesis using sw run Returned by simp
  qed
qed

lemma soft_sread_common_negative:
  "timeout_ms < 0 \<Longrightarrow>
     fst (usdf_cq_sread_common_soft fuel K udp cq count timeout_ms fmt) \<noteq> Some (Inl FI_EAGAIN)"
  using soft_sread_negative [of timeout_ms fuel K fmt count]
  by (simp add: usdf_cq_sread_common_soft_def Let_def)

lemma soft_sread_waits:
  "timeout_ms < 0 \<Longrightarrow> out_entries st = [] \<Longrightarrow> domain st = []
     \<Longrightarrow> cq_tail (soft_ring st) = cq_head (soft_ring st) \<and> cq_last_op (soft_ring st) = USDF_SOFT_CQ_READ
         \<or> count = 0
     \<Longrightarrow> fst (usdf_cq_sread_soft_loop fuel K fmt count timeout_ms st) = None
       \<and> length (soft_slept (snd (usdf_cq_sread_soft_loop fuel K fmt count timeout_ms st)))
           = length (soft_slept st) + fuel"
proof (induction fuel arbitrary: st)
  case 0
  then show ?case by simp
next
  case (Suc n)
  let ?s = "soft_ring st"
  have run: "usdf_cq_soft_loop fmt count ?s (cq_tail ?s) [] = (Fell_out, ?s, cq_tail ?s, [])"
    using Suc.prems(4) by (intro soft_loop_empty) auto
  let ?st = "st\<lparr>soft_ring := ?s, domain := [], out_entries := [],
                        soft_slept := soft_slept st @ [soft_sleep_time_us st],
                        soft_time_spent_us :=
                          (soft_time_spent_us st + soft_sleep_time_us st) mod 2 ^ 64,
                        soft_sleep_time_us := next_sleep_time K (soft_sleep_time_us st)\<rparr>"
  have "fst (usdf_cq_sread_soft_loop n K fmt count timeout_ms ?st) = None
       \<and> length (soft_slept (snd (usdf_cq_sread_soft_loop n K fmt count timeout_ms ?st)))
           = length (soft_slept ?st) + n"
    using Suc.prems by (intro Suc.IH) simp_all
  then show ?case
    using Suc.prems(2,3) run deadline_negative [OF Suc.prems(1)] by simp
qed

lemma soft_sread_timeout_zero:
  "valid_format fmt \<and> usdf_domain_progress udp (soft (c_union cq)) = (s, udp')
     \<and> (cq_tail s = cq_head s \<and> cq_last_op s = USDF_SOFT_CQ_READ \<or> count = 0)
   \<longrightarrow> fst (usdf_cq_sread_common_soft (Suc n) K udp cq count 0 fmt) = Some (Inl FI_EAGAIN)
     \<and> soft_slept (snd (usdf_cq_sread_common_soft (Suc n) K udp cq count 0 fmt)) = []"
proof (intro impI)
  assume a: "valid_format fmt \<and> usdf_domain_progress udp (soft (c_union cq)) = (s, udp')
     \<and> (cq_tail s = cq_head s \<and> cq_last_op s = USDF_SOFT_CQ_READ \<or> count = 0)"
  then have run: "usdf_cq_soft_loop fmt count s (cq_tail s) [] = (Fell_out, s, cq_tail s, [])"
    by (intro soft_loop_empty) auto
  show "fst (usdf_cq_sread_common_soft (Suc n) K udp cq count 0 fmt) = Some (Inl FI_EAGAIN)
     \<and> soft_slept (snd (usdf_cq_sread_common_soft (Suc n) K udp cq count 0 fmt)) = []"
    using a run by (auto simp: usdf_cq_sread_common_soft_def valid_format_def Let_def deadline_zero)
qed

lemma soft_sread_backoff:
  "backoff_inv K (soft_sleep_time_us st) (soft_slept st) \<Longrightarrow>
     backoff_inv K (soft_sleep_time_us (snd (usdf_cq_sread_soft_loop fuel K fmt count timeout_ms st)))
                   (soft_slept (snd (usdf_cq_sread_soft_loop fuel K fmt count timeout_ms st)))"
proof (induction fuel arbitrary: st)
  case 0
  then show ?case by simp
next
  case (Suc n)
  obtain s udp' where sw: "usdf_domain_progress (domain st) (soft_ring st) = (s, udp')"
    by (cases "usdf_domain_progress (domain st) (soft_ring st)")
  obtain x s' tail' out where run:
    "usdf_cq_soft_loop fmt count s (cq_tail s) (out_entries st) = (x, s', tail', out)"
    by (metis prod_cases4)
  let ?st = "st\<lparr>soft_ring := s', domain := udp', out_entries := out,
                        soft_slept := soft_slept st @ [soft_sleep_time_us st],
                        soft_time_spent_us :=
                          (soft_time_spent_us st + soft_sleep_time_us st) mod 2 ^ 64,
                        soft_sleep_time_us := next_sleep_time K (soft_sleep_time_us st)\<rparr>"
  have "backoff_inv K (soft_sleep_time_us (snd (usdf_cq_sread_soft_loop n K fmt count timeout_ms ?st)))
                   (soft_slept (snd (usdf_cq_sread_soft_loop n K fmt count timeout_ms ?st)))"
    using backoff_inv_step [OF Suc.prems] by (intro Suc.IH) simp
  then show ?case using Suc.prems sw run by (cases x) auto
qed

lemma soft_sread_round_with_data:
  "valid_format fmt \<and> out_entries st = []
     \<and> usdf_domain_progress (domain st) (soft_ring st) = (s, udp') \<and> ring_ok s
     \<and> pending s \<noteq> [] \<and> 0 < count
   \<longrightarrow> (\<exists>r st'. usdf_cq_sread_soft_loop (Suc n) K fmt count timeout_ms st = (Some r, st')
          \<and> (r = Inl FI_EAVAIL \<or> r = Inr (length (out_entries st')) \<and> out_entries st' \<noteq> [])
          \<and> soft_slept st' = soft_slept st \<and> soft_time_spent_us st' = soft_time_spent_us st)"
proof (intro impI)
  assume a: "valid_format fmt \<and> out_entries st = []
     \<and> usdf_domain_progress (domain st) (soft_ring st) = (s, udp') \<and> ring_ok s
     \<and> pending s \<noteq> [] \<and> 0 < count"
  then have vf: "valid_format fmt" and ok0: "ring_ok (s\<lparr>cq_tail := cq_tail s\<rparr>)" by simp_all
  obtain x s' tail' out where run:
    "usdf_cq_soft_loop fmt count s (cq_tail s) [] = (x, s', tail', out)"
    by (metis prod_cases4)
  note ch = soft_loop_char [OF ok0 vf run, simplified]
  show "\<exists>r st'. usdf_cq_sread_soft_loop (Suc n) K fmt count timeout_ms st = (Some r, st')
          \<and> (r = Inl FI_EAVAIL \<or> r = Inr (length (out_entries st')) \<and> out_entries st' \<noteq> [])
          \<and> soft_slept st' = soft_slept st \<and> soft_time_spent_us st' = soft_time_spent_us st"
  proof (cases "no_error (hd (pending s))")
    case True
    then have "0 < readable count (pending s)" using a by (cases "pending s") (auto simp: readable_def)
    then have "out \<noteq> []" using ch a by (cases "pending s") auto
    moreover have "x = Fell_out" using ch a True by simp
    ultimately show ?thesis using a run by simp
  next
    case False
    then have "x = Returned (Inl FI_EAVAIL)" using ch a by simp
    then show ?thesis using a run by simp
  qed
qed

lemma backoff_inv_bound:
  assumes "backoff_inv K q sl" "SREAD_INIT_SLEEP_TIME_US K \<le> SREAD_MAX_SLEEP_TIME_US K"
  shows "list_all (\<lambda>t. t \<le> SREAD_MAX_SLEEP_TIME_US K) sl"
proof -
  have "sl = map (backoff_seq K) [0..<length sl]" using assms(1) by (simp add: backoff_inv_def)
  moreover have "list_all (\<lambda>t. t \<le> SREAD_MAX_SLEEP_TIME_US K) (map (backoff_seq K) [0..<n])" for n
    using backoff_seq_le [OF assms(2)] by (simp add: list_all_iff)
  ultimately show ?thesis by metis
qed

lemma sread_common_backoff:
  "backoff_inv K (sleep_time_us (snd (usdf_cq_sread_common fuel K cq hw count timeout_ms fmt)))
                 (slept (snd (usdf_cq_sread_common fuel K cq hw count timeout_ms fmt)))"
  using sread_loop_backoff [of K "\<lparr>entries = [], sticky = cq_comp cq, hwq = hw,
          sleep_time_us = SREAD_INIT_SLEEP_TIME_US K, time_spent_us = 0, slept = []\<rparr>"
          fuel fmt count timeout_ms] backoff_inv_init [of K]
  by (simp add: usdf_cq_sread_common_def Let_def)

lemma sread_common_soft_backoff:
  "backoff_inv K
     (soft_sleep_time_us (snd (usdf_cq_sread_common_soft fuel K udp cq count timeout_ms fmt)))
     (soft_slept (snd (usdf_cq_sread_common_soft fuel K udp cq count timeout_ms fmt)))"
  using soft_sread_backoff [of K "\<lparr>soft_ring = soft (c_union cq), domain = udp, out_entries = [],
                soft_sleep_time_us = SREAD_INIT_SLEEP_TIME_US K, soft_time_spent_us = 0,
                soft_slept = []\<rparr>" fuel fmt count timeout_ms] backoff_inv_init [of K]
  by (simp add: usdf_cq_sread_common_soft_def Let_def)

lemma hard_sread_negative:
  "timeout_ms < 0 \<and> 0 < count
   \<longrightarrow> fst (usdf_cq_sread_common fuel K cq hw count timeout_ms fmt) \<noteq> Some (Inl FI_EAGAIN)"
  using sread_loop_negative [of timeout_ms "\<lparr>entries = [], sticky = cq_comp cq, hwq = hw,
          sleep_time_us = SREAD_INIT_SLEEP_TIME_US K, time_spent_us = 0, slept = []\<rparr>"
          count fuel K fmt]
  by (simp add: usdf_cq_sread_common_def Let_def)

lemma hard_sread_waits:
  "timeout_ms < 0 \<and> 0 < count \<and> uc_status (cq_comp cq) = 0 \<and> valid_format fmt
     \<and> list_all (\<lambda>r. r = None) hw
   \<longrightarrow> fst (usdf_cq_sread_common fuel K cq hw count timeout_ms fmt) = None
     \<and> length (slept (snd (usdf_cq_sread_common fuel K cq hw count timeout_ms fmt))) = fuel"
  using sread_loop_waits [of timeout_ms "\<lparr>entries = [], sticky = cq_comp cq, hwq = hw,
          sleep_time_us = SREAD_INIT_SLEEP_TIME_US K, time_spent_us = 0, slept = []\<rparr>"
          count fuel K fmt]
  by (simp add: sread_common_unfold)

lemma hard_sread_schedule:
  "slept (snd (usdf_cq_sread_common fuel K cq hw count timeout_ms fmt))
     = map (backoff_seq K)
         [0..<length (slept (snd (usdf_cq_sread_common fuel K cq hw count timeout_ms fmt)))]
   \<and> (SREAD_INIT_SLEEP_TIME_US K \<le> SREAD_MAX_SLEEP_TIME_US K
      \<longrightarrow> list_all (\<lambda>t. t \<le> SREAD_MAX_SLEEP_TIME_US K)
            (slept (snd (usdf_cq_sread_common fuel K cq hw count timeout_ms fmt))))"
  using sread_common_backoff [of K fuel cq hw count timeout_ms fmt]
    backoff_inv_bound [of K _ "slept (snd (usdf_cq_sread_common fuel K cq hw count timeout_ms fmt))"]
  by (auto simp: backoff_inv_def)

lemma soft_sread_schedule:
  "soft_slept (snd (usdf_cq_sread_common_soft fuel K udp cq count timeout_ms fmt))
     = map (backoff_seq K)
         [0..<length (soft_slept (snd (usdf_cq_sread_common_soft fuel K udp cq count timeout_ms fmt)))]
   \<and> (SREAD_INIT_SLEEP_TIME_US K \<le> SREAD_MAX_SLEEP_TIME_US K
      \<longrightarrow> list_all (\<lambda>t. t \<le> SREAD_MAX_SLEEP_TIME_US K)
            (soft_slept (snd (usdf_cq_sread_common_soft fuel K udp cq count timeout_ms fmt))))"
  using sread_common_soft_backoff [of K fuel udp cq count timeout_ms fmt]
    backoff_inv_bound [of K _ "soft_slept (snd (usdf_cq_sread_common_soft fuel K udp cq count timeout_ms fmt))"]
  by (auto simp: backoff_inv_def)

lemma backoff_schedule:
  "backoff_seq K 0 = SREAD_INIT_SLEEP_TIME_US K
   \<and> backoff_seq K (Suc i) = next_sleep_time K (backoff_seq K i)
   \<and> next_sleep_time K q \<le> SREAD_MAX_SLEEP_TIME_US K
   \<and> (q < SREAD_MAX_SLEEP_TIME_US K \<and> q * SREAD_EXP_BASE K \<le> SREAD_MAX_SLEEP_TIME_US K
        \<and> SREAD_MAX_SLEEP_TIME_US K < 2 ^ 64
      \<longrightarrow> next_sleep_time K q = q * SREAD_EXP_BASE K)
   \<and> (q < SREAD_MAX_SLEEP_TIME_US K \<and> SREAD_MAX_SLEEP_TIME_US K \<le> q * SREAD_EXP_BASE K
        \<and> q * SREAD_EXP_BASE K < 2 ^ 64
      \<longrightarrow> next_sleep_time K q = SREAD_MAX_SLEEP_TIME_US K)
   \<and> (SREAD_MAX_SLEEP_TIME_US K \<le> q \<longrightarrow> next_sleep_time K q = SREAD_MAX_SLEEP_TIME_US K)
   \<and> (backoff_seq K i = SREAD_MAX_SLEEP_TIME_US K
      \<longrightarrow> backoff_seq K (i + j) = SREAD_MAX_SLEEP_TIME_US K)
   \<and> (1 \<le> SREAD_EXP_BASE K \<and> SREAD_INIT_SLEEP_TIME_US K \<le> SREAD_MAX_SLEEP_TIME_US K
        \<and> SREAD_MAX_SLEEP_TIME_US K * SREAD_EXP_BASE K < 2 ^ 64
      \<longrightarrow> backoff_seq K i
            = min (SREAD_INIT_SLEEP_TIME_US K * SREAD_EXP_BASE K ^ i)
                  (SREAD_MAX_SLEEP_TIME_US K))"
  using next_sleep_mult [of q K] next_sleep_cap_exact [of q K] next_sleep_cap_stays [of K q]
    backoff_seq_stays [of K i j] backoff_seq_closed [of K i]
  by (simp add: backoff_seq_simps next_sleep_le)

lemma hard_sread_after_entry:
  "valid_format fmt \<and> entries st \<noteq> [] \<and> length (hwq st) < fuel
   \<longrightarrow> (\<exists>k st'. usdf_cq_sread_loop fuel K fmt count timeout_ms st = (Some (Inr k), st')
        \<and> 0 < k \<and> k = length (entries st')
        \<and> slept st' = slept st \<and> time_spent_us st' = time_spent_us st)"
  using sread_loop_after_entry [of fmt st fuel K count timeout_ms] by blast

lemma hard_sread_on_error:
  "hwq st = Some e # rest \<and> uc_status e \<noteq> 0 \<and> length (entries st) < count
   \<longrightarrow> usdf_cq_sread_loop (Suc n) K fmt count timeout_ms st
       = (Some (if entries st \<noteq> [] then Inr (length (entries st)) else Inl FI_EAVAIL),
          st\<lparr>sticky := e, hwq := rest\<rparr>)"
  by simp

lemma hard_sread_wait_bound:
  "uc_status (cq_comp cq) = 0 \<and> valid_format fmt \<and> 0 < count \<and> w + length rest + 1 < fuel
   \<longrightarrow> (\<exists>r st'. usdf_cq_sread_common fuel K cq (replicate w None @ Some c # rest) count
                   timeout_ms fmt = (Some r, st')
        \<and> length (slept st') \<le> w)"
  using sread_loop_wait_bound [of fmt "\<lparr>entries = [], sticky = cq_comp cq,
          hwq = replicate w None @ Some c # rest,
          sleep_time_us = SREAD_INIT_SLEEP_TIME_US K, time_spent_us = 0, slept = []\<rparr>"
          count w c rest fuel K timeout_ms]
  by (simp add: sread_common_unfold)

lemma soft_sread_neg:
  "timeout_ms < 0
   \<longrightarrow> fst (usdf_cq_sread_common_soft fuel K udp cq count timeout_ms fmt) \<noteq> Some (Inl FI_EAGAIN)"
  using soft_sread_common_negative by blast

lemma soft_sread_common_waits:
  "timeout_ms < 0 \<and> valid_format fmt
     \<and> (cq_tail (soft (c_union cq)) = cq_head (soft (c_union cq))
          \<and> cq_last_op (soft (c_union cq)) = USDF_SOFT_CQ_READ \<or> count = 0)
   \<longrightarrow> fst (usdf_cq_sread_common_soft fuel K [] cq count timeout_ms fmt) = None
     \<and> length (soft_slept (snd (usdf_cq_sread_common_soft fuel K [] cq count timeout_ms fmt)))
         = fuel"
  using soft_sread_waits [of timeout_ms "\<lparr>soft_ring = soft (c_union cq), domain = [],
                out_entries = [],
                soft_sleep_time_us = SREAD_INIT_SLEEP_TIME_US K, soft_time_spent_us = 0,
                soft_slept = []\<rparr>" count fuel K fmt]
  by (auto simp: usdf_cq_sread_common_soft_def valid_format_def Let_def)

text \<open>
  Claim C8, amended. For the blocking reads of both modes: with a timeout of 0 and
  nothing available the call returns \<^verbatim>\<open>-FI_EAGAIN\<close> without a sleep; with a negative
  timeout it never returns \<^verbatim>\<open>-FI_EAGAIN\<close> (in hard mode: when \<open>count\<close> is above 0) and,
  while nothing arrives, is still in its loop after any number of polls, having slept
  once for each; the sleeps made are the quanta of the schedule in order, which starts
  at the initial value, goes from one quantum to the next by multiplying with the base
  while below the maximum and capping at it, and stays at or below the maximum when the
  initial value is; once an entry has been produced the call returns with no further
  sleep, a completion with an error status ends it at once, and the sleeps made are at
  most the empty polls in front of the first completion. The conjuncts are, for hard
  mode: timeout 0; negative timeout; waiting; the schedule; after an entry; on an error;
  the bound on the sleeps; for soft mode: timeout 0; negative timeout; waiting; the
  schedule; a round in which the ring holds an entry; and the schedule's own shape.

  The shape of the schedule is exact. The quantum after \<open>q\<close> is \<open>q\<close> times the base where
  that is within the maximum; it is the maximum itself, not merely a value within it,
  where \<open>q\<close> is below the maximum and \<open>q\<close> times the base is not (the product not wrapping
  in \<^verbatim>\<open>size_t\<close>), and where \<open>q\<close> has reached the maximum; so a schedule that has reached
  the maximum stays there. With a base of at least 1, an initial value within the
  maximum and no wrap, the \<open>i\<close>-th quantum is the smaller of the initial value times the
  \<open>i\<close>-th power of the base and the maximum.
\<close>

theorem blocking_read_waits:
  "(uc_status (cq_comp cq) = 0 \<and> valid_format fmt \<and> fst (usd_poll_cq hw) = None
   \<longrightarrow> fst (usdf_cq_sread_common (Suc n) K cq hw count 0 fmt) = Some (Inl FI_EAGAIN)
     \<and> slept (snd (usdf_cq_sread_common (Suc n) K cq hw count 0 fmt)) = [])
 \<and> (timeout_ms < 0 \<and> 0 < count
   \<longrightarrow> fst (usdf_cq_sread_common fuel K cq hw count timeout_ms fmt) \<noteq> Some (Inl FI_EAGAIN))
 \<and> (timeout_ms < 0 \<and> 0 < count \<and> uc_status (cq_comp cq) = 0 \<and> valid_format fmt
     \<and> list_all (\<lambda>r. r = None) hw
   \<longrightarrow> fst (usdf_cq_sread_common fuel K cq hw count timeout_ms fmt) = None
     \<and> length (slept (snd (usdf_cq_sread_common fuel K cq hw count timeout_ms fmt))) = fuel)
 \<and> (slept (snd (usdf_cq_sread_common fuel K cq hw count timeout_ms fmt))
     = map (backoff_seq K)
         [0..<length (slept (snd (usdf_cq_sread_common fuel K cq hw count timeout_ms fmt)))]
   \<and> (SREAD_INIT_SLEEP_TIME_US K \<le> SREAD_MAX_SLEEP_TIME_US K
      \<longrightarrow> list_all (\<lambda>t. t \<le> SREAD_MAX_SLEEP_TIME_US K)
            (slept (snd (usdf_cq_sread_common fuel K cq hw count timeout_ms fmt)))))
 \<and> (valid_format fmt \<and> entries st \<noteq> [] \<and> length (hwq st) < fuel
   \<longrightarrow> (\<exists>k st'. usdf_cq_sread_loop fuel K fmt count timeout_ms st = (Some (Inr k), st')
        \<and> 0 < k \<and> k = length (entries st')
        \<and> slept st' = slept st \<and> time_spent_us st' = time_spent_us st))
 \<and> (hwq st = Some e # rest \<and> uc_status e \<noteq> 0 \<and> length (entries st) < count
   \<longrightarrow> usdf_cq_sread_loop (Suc n) K fmt count timeout_ms st
       = (Some (if entries st \<noteq> [] then Inr (length (entries st)) else Inl FI_EAVAIL),
          st\<lparr>sticky := e, hwq := rest\<rparr>))
 \<and> (uc_status (cq_comp cq) = 0 \<and> valid_format fmt \<and> 0 < count \<and> w + length rest + 1 < fuel
   \<longrightarrow> (\<exists>r st'. usdf_cq_sread_common fuel K cq (replicate w None @ Some c # rest) count
                   timeout_ms fmt = (Some r, st')
        \<and> length (slept st') \<le> w))
 \<and> (valid_format fmt \<and> usdf_domain_progress udp (soft (c_union cq)) = (s, udp')
     \<and> (cq_tail s = cq_head s \<and> cq_last_op s = USDF_SOFT_CQ_READ \<or> count = 0)
   \<longrightarrow> fst (usdf_cq_sread_common_soft (Suc n) K udp cq count 0 fmt) = Some (Inl FI_EAGAIN)
     \<and> soft_slept (snd (usdf_cq_sread_common_soft (Suc n) K udp cq count 0 fmt)) = [])
 \<and> (timeout_ms < 0
   \<longrightarrow> fst (usdf_cq_sread_common_soft fuel K udp cq count timeout_ms fmt) \<noteq> Some (Inl FI_EAGAIN))
 \<and> (timeout_ms < 0 \<and> valid_format fmt
     \<and> (cq_tail (soft (c_union cq)) = cq_head (soft (c_union cq))
          \<and> cq_last_op (soft (c_union cq)) = USDF_SOFT_CQ_READ \<or> count = 0)
   \<longrightarrow> fst (usdf_cq_sread_common_soft fuel K [] cq count timeout_ms fmt) = None
     \<and> length (soft_slept (snd (usdf_cq_sread_common_soft fuel K [] cq count timeout_ms fmt)))
         = fuel)
 \<and> (soft_slept (snd (usdf_cq_sread_common_soft fuel K udp cq count timeout_ms fmt))
     = map (backoff_seq K)
         [0..<length (soft_slept (snd (usdf_cq_sread_common_soft fuel K udp cq count timeout_ms fmt)))]
   \<and> (SREAD_INIT_SLEEP_TIME_US K \<le> SREAD_MAX_SLEEP_TIME_US K
      \<longrightarrow> list_all (\<lambda>t. t \<le> SREAD_MAX_SLEEP_TIME_US K)
            (soft_slept (snd (usdf_cq_sread_common_soft fuel K udp cq count timeout_ms fmt)))))
 \<and> (valid_format fmt \<and> out_entries sst = []
     \<and> usdf_domain_progress (domain sst) (soft_ring sst) = (s, udp') \<and> ring_ok s
     \<and> pending s \<noteq> [] \<and> 0 < count
   \<longrightarrow> (\<exists>r sst'. usdf_cq_sread_soft_loop (Suc n) K fmt count timeout_ms sst = (Some r, sst')
          \<and> (r = Inl FI_EAVAIL \<or> r = Inr (length (out_entries sst')) \<and> out_entries sst' \<noteq> [])
          \<and> soft_slept sst' = soft_slept sst \<and> soft_time_spent_us sst' = soft_time_spent_us sst))
 \<and> (backoff_seq K 0 = SREAD_INIT_SLEEP_TIME_US K
   \<and> backoff_seq K (Suc i) = next_sleep_time K (backoff_seq K i)
   \<and> next_sleep_time K q \<le> SREAD_MAX_SLEEP_TIME_US K
   \<and> (q < SREAD_MAX_SLEEP_TIME_US K \<and> q * SREAD_EXP_BASE K \<le> SREAD_MAX_SLEEP_TIME_US K
        \<and> SREAD_MAX_SLEEP_TIME_US K < 2 ^ 64
      \<longrightarrow> next_sleep_time K q = q * SREAD_EXP_BASE K)
   \<and> (q < SREAD_MAX_SLEEP_TIME_US K \<and> SREAD_MAX_SLEEP_TIME_US K \<le> q * SREAD_EXP_BASE K
        \<and> q * SREAD_EXP_BASE K < 2 ^ 64
      \<longrightarrow> next_sleep_time K q = SREAD_MAX_SLEEP_TIME_US K)
   \<and> (SREAD_MAX_SLEEP_TIME_US K \<le> q \<longrightarrow> next_sleep_time K q = SREAD_MAX_SLEEP_TIME_US K)
   \<and> (backoff_seq K i = SREAD_MAX_SLEEP_TIME_US K
      \<longrightarrow> backoff_seq K (i + j) = SREAD_MAX_SLEEP_TIME_US K)
   \<and> (1 \<le> SREAD_EXP_BASE K \<and> SREAD_INIT_SLEEP_TIME_US K \<le> SREAD_MAX_SLEEP_TIME_US K
        \<and> SREAD_MAX_SLEEP_TIME_US K * SREAD_EXP_BASE K < 2 ^ 64
      \<longrightarrow> backoff_seq K i
            = min (SREAD_INIT_SLEEP_TIME_US K * SREAD_EXP_BASE K ^ i)
                  (SREAD_MAX_SLEEP_TIME_US K)))"
  apply (rule conjI [OF hard_sread_timeout_zero])
  apply (rule conjI [OF hard_sread_negative])
  apply (rule conjI [OF hard_sread_waits])
  apply (rule conjI [OF hard_sread_schedule])
  apply (rule conjI [OF hard_sread_after_entry])
  apply (rule conjI [OF hard_sread_on_error])
  apply (rule conjI [OF hard_sread_wait_bound])
  apply (rule conjI [OF soft_sread_timeout_zero])
  apply (rule conjI [OF soft_sread_neg])
  apply (rule conjI [OF soft_sread_common_waits])
  apply (rule conjI [OF soft_sread_schedule])
  apply (rule conjI [OF soft_sread_round_with_data])
  apply (rule backoff_schedule)
  done

text \<open>
  Claim C8 as stated fails for a hard-mode blocking read of 0 entries: with a timeout of
  -1 it returns \<^verbatim>\<open>-FI_EAGAIN\<close> at once, whether or not a completion is waiting.
\<close>

theorem hard_sread_zero_count_try_again:
  "fst (usdf_cq_sread_common 1 consts0 hard_cq0 [] 0 (- 1) FI_CQ_FORMAT_CONTEXT)
     = Some (Inl FI_EAGAIN)
   \<and> fst (usdf_cq_sread_common 5 consts0 hard_cq0 [Some (comp_recv 1 100 0)] 0 (- 1)
            FI_CQ_FORMAT_MSG) = Some (Inl FI_EAGAIN)"
  by (simp add: usdf_cq_sread_common_def hard_cq0_def comp0_def read_result_def Let_def
      numeral_eq_Suc)

text \<open>
  With the settings 1, 2 and 5000: an empty hardware queue and an empty ring, for
  timeouts of 0 and of -1, and a hardware queue that answers the third poll. With the
  maximum lowered to 5, five polls of an empty hardware queue sleep for 1, 2, 4, 5 and
  5: the fourth quantum is the maximum and the fifth stays there. With 5000 the
  quantum after 2048 is 4096, the one after 4096 is 5000, and it is 5000 from then on.
\<close>

theorem blocking_read_waits_witness:
  "fst (usdf_cq_sread_common (Suc 0) consts0 hard_cq0 [] 4 0 FI_CQ_FORMAT_CONTEXT)
     = Some (Inl FI_EAGAIN)
   \<and> slept (snd (usdf_cq_sread_common (Suc 0) consts0 hard_cq0 [] 4 0 FI_CQ_FORMAT_CONTEXT)) = []
   \<and> fst (usdf_cq_sread_common 3 consts0 hard_cq0 [] 4 (- 1) FI_CQ_FORMAT_CONTEXT) = None
   \<and> slept (snd (usdf_cq_sread_common 3 consts0 hard_cq0 [] 4 (- 1) FI_CQ_FORMAT_CONTEXT))
       = [1, 2, 4]
   \<and> fst (usdf_cq_sread_common_soft (Suc 0) consts0 [] (soft_cq0 (empty_ring 4)) 4 0
            FI_CQ_FORMAT_CONTEXT) = Some (Inl FI_EAGAIN)
   \<and> soft_slept (snd (usdf_cq_sread_common_soft (Suc 0) consts0 [] (soft_cq0 (empty_ring 4)) 4 0
            FI_CQ_FORMAT_CONTEXT)) = []
   \<and> fst (usdf_cq_sread_common_soft 3 consts0 [] (soft_cq0 (empty_ring 4)) 4 (- 1)
            FI_CQ_FORMAT_CONTEXT) = None
   \<and> (\<exists>r st'. usdf_cq_sread_common 5 consts0 hard_cq0
                  ([None, None] @ Some (comp_recv 1 100 0) # []) 4 (- 1) FI_CQ_FORMAT_CONTEXT
                = (Some r, st')
          \<and> length (slept st') \<le> 2)
   \<and> fst (usdf_cq_sread_common 5 consts_cap hard_cq0 [] 4 (- 1) FI_CQ_FORMAT_CONTEXT) = None
   \<and> slept (snd (usdf_cq_sread_common 5 consts_cap hard_cq0 [] 4 (- 1) FI_CQ_FORMAT_CONTEXT))
       = [1, 2, 4, 5, 5]
   \<and> next_sleep_time consts0 2048 = 4096
   \<and> next_sleep_time consts0 4096 = 5000
   \<and> next_sleep_time consts0 5000 = 5000
   \<and> backoff_seq consts0 12 = 4096
   \<and> backoff_seq consts0 13 = 5000
   \<and> backoff_seq consts0 (13 + 7) = 5000"
proof -
  note T = blocking_read_waits
  note S = T [THEN conjunct2, THEN conjunct2, THEN conjunct2, THEN conjunct2, THEN conjunct2,
              THEN conjunct2, THEN conjunct2, THEN conjunct2, THEN conjunct2, THEN conjunct2,
              THEN conjunct2, THEN conjunct2]
  have hm: "(2048 :: nat) < SREAD_MAX_SLEEP_TIME_US consts0
            \<and> 2048 * SREAD_EXP_BASE consts0 \<le> SREAD_MAX_SLEEP_TIME_US consts0
            \<and> SREAD_MAX_SLEEP_TIME_US consts0 < 2 ^ 64"
    by (simp add: consts0_def)
  have x0: "next_sleep_time consts0 2048 = 2048 * SREAD_EXP_BASE consts0"
    by (rule S [THEN conjunct2, THEN conjunct2, THEN conjunct2, THEN conjunct1, THEN mp, OF hm])
  have hx: "(4096 :: nat) < SREAD_MAX_SLEEP_TIME_US consts0
            \<and> SREAD_MAX_SLEEP_TIME_US consts0 \<le> 4096 * SREAD_EXP_BASE consts0
            \<and> 4096 * SREAD_EXP_BASE consts0 < 2 ^ 64"
    by (simp add: consts0_def)
  have x1: "next_sleep_time consts0 4096 = SREAD_MAX_SLEEP_TIME_US consts0"
    by (rule S [THEN conjunct2, THEN conjunct2, THEN conjunct2, THEN conjunct2, THEN conjunct1,
                THEN mp, OF hx])
  have hs: "SREAD_MAX_SLEEP_TIME_US consts0 \<le> 5000"
    by (simp add: consts0_def)
  have x2: "next_sleep_time consts0 5000 = SREAD_MAX_SLEEP_TIME_US consts0"
    by (rule S [THEN conjunct2, THEN conjunct2, THEN conjunct2, THEN conjunct2, THEN conjunct2,
                THEN conjunct1, THEN mp, OF hs])
  have hc0: "1 \<le> SREAD_EXP_BASE consts0
             \<and> SREAD_INIT_SLEEP_TIME_US consts0 \<le> SREAD_MAX_SLEEP_TIME_US consts0
             \<and> SREAD_MAX_SLEEP_TIME_US consts0 * SREAD_EXP_BASE consts0 < 2 ^ 64"
    by (simp add: consts0_def)
  have cl0: "backoff_seq consts0 i
               = min (SREAD_INIT_SLEEP_TIME_US consts0 * SREAD_EXP_BASE consts0 ^ i)
                     (SREAD_MAX_SLEEP_TIME_US consts0)" for i
    by (rule S [THEN conjunct2, THEN conjunct2, THEN conjunct2, THEN conjunct2, THEN conjunct2,
                THEN conjunct2, THEN conjunct2, THEN mp, OF hc0])
  have b12: "backoff_seq consts0 12 = 4096"
    unfolding cl0 [of 12] by (simp add: consts0_def)
  have b13: "backoff_seq consts0 13 = 5000"
    unfolding cl0 [of 13] by (simp add: consts0_def)
  have b13': "backoff_seq consts0 13 = SREAD_MAX_SLEEP_TIME_US consts0"
    using b13 by (simp add: consts0_def)
  have b20: "backoff_seq consts0 (13 + 7) = SREAD_MAX_SLEEP_TIME_US consts0"
    by (rule S [THEN conjunct2, THEN conjunct2, THEN conjunct2, THEN conjunct2, THEN conjunct2,
                THEN conjunct2, THEN conjunct1, THEN mp, OF b13'])
  have hc: "1 \<le> SREAD_EXP_BASE consts_cap
            \<and> SREAD_INIT_SLEEP_TIME_US consts_cap \<le> SREAD_MAX_SLEEP_TIME_US consts_cap
            \<and> SREAD_MAX_SLEEP_TIME_US consts_cap * SREAD_EXP_BASE consts_cap < 2 ^ 64"
    by (simp add: consts_cap_def consts0_def)
  have cl: "backoff_seq consts_cap i
              = min (SREAD_INIT_SLEEP_TIME_US consts_cap * SREAD_EXP_BASE consts_cap ^ i)
                    (SREAD_MAX_SLEEP_TIME_US consts_cap)" for i
    by (rule S [THEN conjunct2, THEN conjunct2, THEN conjunct2, THEN conjunct2, THEN conjunct2,
                THEN conjunct2, THEN conjunct2, THEN mp, OF hc])
  have up5: "[0..<5] = [0, Suc 0, Suc (Suc 0), Suc (Suc (Suc 0)), Suc (Suc (Suc (Suc 0)))]"
    by (simp add: numeral_eq_Suc)
  have bs5: "map (backoff_seq consts_cap) [0..<5] = [1, 2, 4, 5, 5]"
    unfolding up5 cl by (simp add: consts_cap_def consts0_def)
  have vf: "valid_format FI_CQ_FORMAT_CONTEXT" by (simp add: valid_format_def)
  have st0: "uc_status (cq_comp hard_cq0) = 0" by (simp add: hard_cq0_def comp0_def)
  have h1: "uc_status (cq_comp hard_cq0) = 0 \<and> valid_format FI_CQ_FORMAT_CONTEXT
            \<and> fst (usd_poll_cq []) = None"
    using vf st0 by simp
  have w1: "fst (usdf_cq_sread_common (Suc 0) consts0 hard_cq0 [] 4 0 FI_CQ_FORMAT_CONTEXT)
              = Some (Inl FI_EAGAIN)
     \<and> slept (snd (usdf_cq_sread_common (Suc 0) consts0 hard_cq0 [] 4 0 FI_CQ_FORMAT_CONTEXT)) = []"
    by (rule T [THEN conjunct1, THEN mp, OF h1])
  have h3: "(- 1 :: int) < 0 \<and> 0 < (4 :: nat) \<and> uc_status (cq_comp hard_cq0) = 0
            \<and> valid_format FI_CQ_FORMAT_CONTEXT \<and> list_all (\<lambda>r. r = None) []"
    using vf st0 by simp
  have w3: "fst (usdf_cq_sread_common 3 consts0 hard_cq0 [] 4 (- 1) FI_CQ_FORMAT_CONTEXT) = None
     \<and> length (slept (snd (usdf_cq_sread_common 3 consts0 hard_cq0 [] 4 (- 1)
                              FI_CQ_FORMAT_CONTEXT))) = 3"
    by (rule T [THEN conjunct2, THEN conjunct2, THEN conjunct1, THEN mp, OF h3])
  have w4: "slept (snd (usdf_cq_sread_common 3 consts0 hard_cq0 [] 4 (- 1) FI_CQ_FORMAT_CONTEXT))
     = map (backoff_seq consts0)
         [0..<length (slept (snd (usdf_cq_sread_common 3 consts0 hard_cq0 [] 4 (- 1)
                                    FI_CQ_FORMAT_CONTEXT)))]"
    by (rule T [THEN conjunct2, THEN conjunct2, THEN conjunct2, THEN conjunct1, THEN conjunct1])
  have up: "[0..<3] = [0, Suc 0, Suc (Suc 0)]"
    by (simp only: numeral_3_eq_3 upt.simps) simp
  have b0: "backoff_seq consts0 0 = 1"
    by (simp add: backoff_seq_def consts0_def)
  have b1: "backoff_seq consts0 (Suc 0) = 2"
    by (simp add: backoff_seq_def next_sleep_time_def consts0_def)
  have b2: "backoff_seq consts0 (Suc (Suc 0)) = 4"
    by (simp add: backoff_seq_def next_sleep_time_def consts0_def)
  have bs: "map (backoff_seq consts0) [0..<3] = [1, 2, 4]"
    unfolding up by (simp add: b0 b1 b2)
  have w4': "slept (snd (usdf_cq_sread_common 3 consts0 hard_cq0 [] 4 (- 1) FI_CQ_FORMAT_CONTEXT))
              = [1, 2, 4]"
    using w4 w3 bs by simp
  have c3: "fst (usdf_cq_sread_common 5 consts_cap hard_cq0 [] 4 (- 1) FI_CQ_FORMAT_CONTEXT) = None
     \<and> length (slept (snd (usdf_cq_sread_common 5 consts_cap hard_cq0 [] 4 (- 1)
                              FI_CQ_FORMAT_CONTEXT))) = 5"
    by (rule T [THEN conjunct2, THEN conjunct2, THEN conjunct1, THEN mp, OF h3])
  have c4: "slept (snd (usdf_cq_sread_common 5 consts_cap hard_cq0 [] 4 (- 1) FI_CQ_FORMAT_CONTEXT))
     = map (backoff_seq consts_cap)
         [0..<length (slept (snd (usdf_cq_sread_common 5 consts_cap hard_cq0 [] 4 (- 1)
                                    FI_CQ_FORMAT_CONTEXT)))]"
    by (rule T [THEN conjunct2, THEN conjunct2, THEN conjunct2, THEN conjunct1, THEN conjunct1])
  have c4': "slept (snd (usdf_cq_sread_common 5 consts_cap hard_cq0 [] 4 (- 1)
                           FI_CQ_FORMAT_CONTEXT)) = [1, 2, 4, 5, 5]"
    using c4 c3 bs5 by simp
  have x0': "next_sleep_time consts0 2048 = 4096" using x0 by (simp add: consts0_def)
  have x1': "next_sleep_time consts0 4096 = 5000" using x1 by (simp add: consts0_def)
  have x2': "next_sleep_time consts0 5000 = 5000" using x2 by (simp add: consts0_def)
  have b20': "backoff_seq consts0 (13 + 7) = 5000" using b20 by (simp only: consts0_def) simp
  have h7: "uc_status (cq_comp hard_cq0) = 0 \<and> valid_format FI_CQ_FORMAT_CONTEXT \<and> 0 < (4::nat)
            \<and> 2 + length ([] :: usd_cq) + 1 < (5 :: nat)"
    using vf st0 by simp
  have w7: "\<exists>r st'. usdf_cq_sread_common 5 consts0 hard_cq0
                  (replicate 2 None @ Some (comp_recv 1 100 0) # []) 4 (- 1) FI_CQ_FORMAT_CONTEXT
                = (Some r, st')
          \<and> length (slept st') \<le> 2"
    by (rule T [THEN conjunct2, THEN conjunct2, THEN conjunct2, THEN conjunct2, THEN conjunct2,
                THEN conjunct2, THEN conjunct1, THEN mp, OF h7])
  have h8: "valid_format FI_CQ_FORMAT_CONTEXT
     \<and> usdf_domain_progress [] (soft (c_union (soft_cq0 (empty_ring 4)))) = (empty_ring 4, [])
     \<and> (cq_tail (empty_ring 4) = cq_head (empty_ring 4)
          \<and> cq_last_op (empty_ring 4) = USDF_SOFT_CQ_READ \<or> (4 :: nat) = 0)"
    using vf by (simp add: soft_cq0_def empty_ring_def)
  have w8: "fst (usdf_cq_sread_common_soft (Suc 0) consts0 [] (soft_cq0 (empty_ring 4)) 4 0
                   FI_CQ_FORMAT_CONTEXT) = Some (Inl FI_EAGAIN)
     \<and> soft_slept (snd (usdf_cq_sread_common_soft (Suc 0) consts0 [] (soft_cq0 (empty_ring 4)) 4 0
                           FI_CQ_FORMAT_CONTEXT)) = []"
    by (rule T [THEN conjunct2, THEN conjunct2, THEN conjunct2, THEN conjunct2, THEN conjunct2,
                THEN conjunct2, THEN conjunct2, THEN conjunct1, THEN mp, OF h8])
  have h10: "(- 1 :: int) < 0 \<and> valid_format FI_CQ_FORMAT_CONTEXT
     \<and> (cq_tail (soft (c_union (soft_cq0 (empty_ring 4))))
           = cq_head (soft (c_union (soft_cq0 (empty_ring 4))))
          \<and> cq_last_op (soft (c_union (soft_cq0 (empty_ring 4)))) = USDF_SOFT_CQ_READ
        \<or> (4 :: nat) = 0)"
    using vf by (simp add: soft_cq0_def empty_ring_def)
  have w10: "fst (usdf_cq_sread_common_soft 3 consts0 [] (soft_cq0 (empty_ring 4)) 4 (- 1)
                    FI_CQ_FORMAT_CONTEXT) = None
     \<and> length (soft_slept (snd (usdf_cq_sread_common_soft 3 consts0 [] (soft_cq0 (empty_ring 4))
                                   4 (- 1) FI_CQ_FORMAT_CONTEXT))) = 3"
    by (rule T [THEN conjunct2, THEN conjunct2, THEN conjunct2, THEN conjunct2, THEN conjunct2,
                THEN conjunct2, THEN conjunct2, THEN conjunct2, THEN conjunct2, THEN conjunct1,
                THEN mp, OF h10])
  have old: "fst (usdf_cq_sread_common (Suc 0) consts0 hard_cq0 [] 4 0 FI_CQ_FORMAT_CONTEXT)
     = Some (Inl FI_EAGAIN)
   \<and> slept (snd (usdf_cq_sread_common (Suc 0) consts0 hard_cq0 [] 4 0 FI_CQ_FORMAT_CONTEXT)) = []
   \<and> fst (usdf_cq_sread_common 3 consts0 hard_cq0 [] 4 (- 1) FI_CQ_FORMAT_CONTEXT) = None
   \<and> slept (snd (usdf_cq_sread_common 3 consts0 hard_cq0 [] 4 (- 1) FI_CQ_FORMAT_CONTEXT))
       = [1, 2, 4]
   \<and> fst (usdf_cq_sread_common_soft (Suc 0) consts0 [] (soft_cq0 (empty_ring 4)) 4 0
            FI_CQ_FORMAT_CONTEXT) = Some (Inl FI_EAGAIN)
   \<and> soft_slept (snd (usdf_cq_sread_common_soft (Suc 0) consts0 [] (soft_cq0 (empty_ring 4)) 4 0
            FI_CQ_FORMAT_CONTEXT)) = []
   \<and> fst (usdf_cq_sread_common_soft 3 consts0 [] (soft_cq0 (empty_ring 4)) 4 (- 1)
            FI_CQ_FORMAT_CONTEXT) = None
   \<and> (\<exists>r st'. usdf_cq_sread_common 5 consts0 hard_cq0
                  ([None, None] @ Some (comp_recv 1 100 0) # []) 4 (- 1) FI_CQ_FORMAT_CONTEXT
                = (Some r, st')
          \<and> length (slept st') \<le> 2)"
    using w1 w3 w4' w7 w8 w10 by (simp add: replicate_2)
  have new: "fst (usdf_cq_sread_common 5 consts_cap hard_cq0 [] 4 (- 1) FI_CQ_FORMAT_CONTEXT) = None
   \<and> slept (snd (usdf_cq_sread_common 5 consts_cap hard_cq0 [] 4 (- 1) FI_CQ_FORMAT_CONTEXT))
       = [1, 2, 4, 5, 5]
   \<and> next_sleep_time consts0 2048 = 4096
   \<and> next_sleep_time consts0 4096 = 5000
   \<and> next_sleep_time consts0 5000 = 5000
   \<and> backoff_seq consts0 12 = 4096
   \<and> backoff_seq consts0 13 = 5000
   \<and> backoff_seq consts0 (13 + 7) = 5000"
    using c3 c4' x0' x1' x2' b12 b13 b20' by (simp only: simp_thms)
  from old new show ?thesis by (simp only: conj_assoc simp_thms)
qed

end
